theory Spec2Isabelle
  imports
    Main
    "HOL-Library.Word"
    "HOL-Library.Multiset"
    "HOL-Library.Product_Lexorder"
    "HOL-Library.Monad_Syntax"
begin

section \<open>Data model\<close>

text \<open>
  A file buffer is a Python \<open>bytes\<close> object: a list of 8-bit words. A Python \<open>str\<close> is a
  sequence of Unicode code points, modelled as a list of natural numbers, so that
  \<open>length\<close> counts what Python's \<open>len\<close> counts.
\<close>

type_synonym byte = "8 word"
type_synonym ustr = "nat list"

text \<open>
  \<open>data[a:b]\<close> for \<open>0 \<le> a\<close>: a slice never raises, it is cut at the end of the buffer.
\<close>

definition py_slice :: "'a list \<Rightarrow> nat \<Rightarrow> nat \<Rightarrow> 'a list" where
  "py_slice xs a b = take (b - a) (drop a xs)"

text \<open>
  \<open>struct.unpack('<I', bs)[0]\<close>: a little-endian unsigned 32-bit read. It raises
  \<open>struct.error\<close> unless \<open>bs\<close> has exactly four bytes; the error is the value \<open>None\<close>.
\<close>

definition unpack_I :: "byte list \<Rightarrow> nat option" where
  "unpack_I bs =
     (case bs of
        [b0, b1, b2, b3] \<Rightarrow>
          Some (unat b0 + 256 * unat b1 + 65536 * unat b2 + 16777216 * unat b3)
      | _ \<Rightarrow> None)"

text \<open>
  The dictionaries built by the extraction strategies have the keys \<open>index\<close>, \<open>type\<close>,
  \<open>text\<close>, \<open>size\<close> and (padded and compact strategies only) \<open>offset\<close>; a missing \<open>offset\<close>
  key is \<open>None\<close>.
\<close>

record raw_entry =
  r_index :: int
  r_type :: nat
  r_text :: ustr
  r_size :: nat
  r_offset :: "nat option"

text \<open>\<open>e.get('offset', 0)\<close>\<close>

definition get_offset :: "raw_entry \<Rightarrow> nat" where
  "get_offset e = (case r_offset e of None \<Rightarrow> 0 | Some k \<Rightarrow> k)"

section \<open>FormatDetector\<close>

datatype format = Full | Dialogue | Unknown

datatype py_error = StructError | IndexError

text \<open>The literal \<open>b'STCM2L'\<close>.\<close>

definition STCM2L_magic :: "byte list" where
  "STCM2L_magic = [0x53, 0x54, 0x43, 0x4D, 0x32, 0x4C]"

text \<open>
  \<open>detect_format\<close>. The unpacking is not inside a \<open>try\<close>: a \<open>struct.error\<close> would leave the
  function, so the result is a sum.
\<close>

definition detect_format :: "byte list \<Rightarrow> py_error + format" where
  "detect_format data =
     (if data = [] then Inr Unknown
      else if py_slice data 0 6 = STCM2L_magic then Inr Full
      else if 8 \<le> length data then
        (case unpack_I (py_slice data 0 4) of
           None \<Rightarrow> Inl StructError
         | Some entry_count \<Rightarrow> if entry_count < 10000 then Inr Dialogue else Inr Unknown)
      else Inr Unknown)"

section \<open>EntryMerger\<close>

text \<open>
  The merging part of \<open>decompile_full_format\<close>: all compact entries, then the padded
  entries whose index no compact entry has, sorted by \<open>(index, offset)\<close>. Python's
  \<open>list.sort\<close> is stable, and so is \<open>sort_key\<close>.
\<close>

definition merge_key :: "raw_entry \<Rightarrow> int \<times> nat" where
  "merge_key e = (r_index e, get_offset e)"

definition merge_entries :: "raw_entry list \<Rightarrow> raw_entry list \<Rightarrow> raw_entry list" where
  "merge_entries padded_entries compact_entries =
     (let compact_indices = set (map r_index compact_entries);
          entries = compact_entries @
                    filter (\<lambda>e. r_index e \<notin> compact_indices) padded_entries
      in sort_key merge_key entries)"


section \<open>Python strings\<close>

text \<open>ASCII literals of the source are written as HOL strings and read as code points.\<close>

definition ascii :: "string \<Rightarrow> ustr" where
  "ascii s = map of_char s"

text \<open>
  \<open>str.isspace\<close>, the characters \<open>str.strip()\<close> and \<open>str.split()\<close> remove: the white space
  table of CPython (bidirectional type WS, B or S, or category Zs).
\<close>

definition isspace :: "nat \<Rightarrow> bool" where
  "isspace c =
     ((9 \<le> c \<and> c \<le> 13) \<or> (28 \<le> c \<and> c \<le> 32) \<or> c = 0x85 \<or> c = 0xA0 \<or> c = 0x1680
      \<or> (0x2000 \<le> c \<and> c \<le> 0x200A) \<or> c = 0x2028 \<or> c = 0x2029 \<or> c = 0x202F
      \<or> c = 0x205F \<or> c = 0x3000)"

definition lstrip_with :: "(nat \<Rightarrow> bool) \<Rightarrow> ustr \<Rightarrow> ustr" where
  "lstrip_with p s = dropWhile p s"

definition rstrip_with :: "(nat \<Rightarrow> bool) \<Rightarrow> ustr \<Rightarrow> ustr" where
  "rstrip_with p s = rev (dropWhile p (rev s))"

text \<open>\<open>s.strip()\<close>, \<open>s.rstrip()\<close> and \<open>s.strip('\x00')\<close>\<close>

definition strip :: "ustr \<Rightarrow> ustr" where
  "strip s = rstrip_with isspace (lstrip_with isspace s)"

definition rstrip :: "ustr \<Rightarrow> ustr" where
  "rstrip s = rstrip_with isspace s"

definition strip_nul :: "ustr \<Rightarrow> ustr" where
  "strip_nul s = rstrip_with (\<lambda>c. c = 0) (lstrip_with (\<lambda>c. c = 0) s)"

text \<open>\<open>s.split()\<close>: the maximal runs of characters that are not white space.\<close>

fun split_acc :: "ustr \<Rightarrow> ustr \<Rightarrow> ustr list" where
  "split_acc [] w = (if w = [] then [] else [rev w])"
| "split_acc (c # cs) w =
     (if isspace c then (if w = [] then split_acc cs [] else rev w # split_acc cs [])
      else split_acc cs (c # w))"

definition py_split :: "ustr \<Rightarrow> ustr list" where
  "py_split s = split_acc s []"

definition startswith :: "ustr \<Rightarrow> ustr \<Rightarrow> bool" where
  "startswith s p = (take (length p) s = p)"

definition endswith :: "ustr \<Rightarrow> ustr \<Rightarrow> bool" where
  "endswith s p = (length p \<le> length s \<and> drop (length s - length p) s = p)"

text \<open>\<open>s.count(c)\<close> for a single character \<open>c\<close>\<close>

definition count_char :: "ustr \<Rightarrow> nat \<Rightarrow> nat" where
  "count_char s c = length (filter (\<lambda>x. x = c) s)"

text \<open>\<open>sep.join(parts)\<close>\<close>

fun py_join :: "ustr \<Rightarrow> ustr list \<Rightarrow> ustr" where
  "py_join sep [] = []"
| "py_join sep [p] = p"
| "py_join sep (p # q # ps) = p @ sep @ py_join sep (q # ps)"

text \<open>
  \<open>str.lower()\<close>. The program compares its result only with words over \<open>a\<close>..\<open>z\<close> and
  katakana. The code points whose lower-case form contains such a character are
  \<open>A\<close>..\<open>Z\<close>, the Kelvin sign U+212A (to \<open>k\<close>) and U+0130 (to \<open>i\<close> followed by U+0307); every
  other code point is mapped to itself or to a code point outside these words'
  alphabet, for which the code point itself stands here.
\<close>

definition lower_char :: "nat \<Rightarrow> ustr" where
  "lower_char c =
     (if 65 \<le> c \<and> c \<le> 90 then [c + 32]
      else if c = 0x212A then [0x6B]
      else if c = 0x130 then [0x69, 0x307]
      else [c])"

definition py_lower :: "ustr \<Rightarrow> ustr" where
  "py_lower s = concat (map lower_char s)"

text \<open>\<open>any(U+3000 <= c <= U+9FFF for c in text)\<close>\<close>

definition has_japanese :: "ustr \<Rightarrow> bool" where
  "has_japanese s = list_ex (\<lambda>c. 0x3000 \<le> c \<and> c \<le> 0x9FFF) s"

section \<open>The Unicode character database\<close>

text \<open>
  \<open>str.isalpha\<close>, \<open>str.isupper\<close> (of one character) and the classes \<open>\d\<close> and \<open>\w\<close> of the
  \<open>re\<close> module read the Unicode character database of the interpreter, which is not part
  of the repository. The tables are a parameter of every function that reads them.
\<close>

record ucd =
  uc_isalpha :: "nat \<Rightarrow> bool"
  uc_isdecimal :: "nat \<Rightarrow> bool"
  uc_isalnum :: "nat \<Rightarrow> bool"
  uc_isupper :: "nat \<Rightarrow> bool"

text \<open>
  The tables on ASCII, kana and the CJK unified ideographs, which is where the concrete
  inputs of this development lie: letters are \<open>A\<close>..\<open>Z\<close>, \<open>a\<close>..\<open>z\<close>, hiragana, katakana
  (with the prolonged sound mark) and the ideographs; decimal digits are \<open>0\<close>..\<open>9\<close>.
\<close>

definition basic_isalpha :: "nat \<Rightarrow> bool" where
  "basic_isalpha c =
     ((65 \<le> c \<and> c \<le> 90) \<or> (97 \<le> c \<and> c \<le> 122) \<or> (0x3041 \<le> c \<and> c \<le> 0x3096)
      \<or> (0x30A1 \<le> c \<and> c \<le> 0x30FA) \<or> c = 0x30FC \<or> (0x4E00 \<le> c \<and> c \<le> 0x9FFF))"

definition basic_isdecimal :: "nat \<Rightarrow> bool" where
  "basic_isdecimal c = (48 \<le> c \<and> c \<le> 57)"

definition basic_ucd :: ucd where
  "basic_ucd =
     \<lparr>uc_isalpha = basic_isalpha,
      uc_isdecimal = basic_isdecimal,
      uc_isalnum = (\<lambda>c. basic_isalpha c \<or> basic_isdecimal c),
      uc_isupper = (\<lambda>c. 65 \<le> c \<and> c \<le> 90)\<rparr>"

section \<open>Regular expressions\<close>

text \<open>
  The patterns of the source as a datatype. \<open>RChr\<close> is a literal character, \<open>RCls\<close> a
  character class given by its ranges, \<open>RDigit\<close> is \<open>\d\<close>, \<open>RBol\<close> is \<open>^\<close>, \<open>REol\<close> is \<open>$\<close>,
  \<open>RWordB\<close> is \<open>\b\<close>.
\<close>

datatype regex =
    REps
  | RChr nat
  | RCls "(nat \<times> nat) list"
  | RDigit
  | RBol
  | REol
  | RWordB
  | RSeq regex regex
  | RAlt regex regex
  | RStar regex

definition RPlus :: "regex \<Rightarrow> regex" where
  "RPlus r = RSeq r (RStar r)"

definition ROpt :: "regex \<Rightarrow> regex" where
  "ROpt r = RAlt r REps"

text \<open>A literal word, and a sequence of patterns.\<close>

fun RWord :: "ustr \<Rightarrow> regex" where
  "RWord [] = REps"
| "RWord [c] = RChr c"
| "RWord (c # d # cs) = RSeq (RChr c) (RWord (d # cs))"

fun RSeqs :: "regex list \<Rightarrow> regex" where
  "RSeqs [] = REps"
| "RSeqs [r] = r"
| "RSeqs (r # q # rs) = RSeq r (RSeqs (q # rs))"

fun RAlts :: "regex list \<Rightarrow> regex" where
  "RAlts [] = REps"
| "RAlts [r] = r"
| "RAlts (r # q # rs) = RAlt r (RAlts (q # rs))"

text \<open>
  \<open>re.IGNORECASE\<close> on a \<open>str\<close> pattern: the matcher lower-cases the text character with the
  simple lower-case mapping and compares it with the lower-cased pattern character and
  its listed equivalents (dotless \<open>i\<close> for \<open>i\<close>, long \<open>s\<close> for \<open>s\<close>). The patterns of the
  program have ASCII letters only; the code points whose simple lower-case form is an
  ASCII letter are \<open>A\<close>..\<open>Z\<close>, U+0130 and U+212A, and every other code point stands for its
  own lower-case form, which is not an ASCII letter unless the code point is.
\<close>

definition sre_lower :: "nat \<Rightarrow> nat" where
  "sre_lower c =
     (if 65 \<le> c \<and> c \<le> 90 then c + 32
      else if c = 0x130 then 0x69
      else if c = 0x212A then 0x6B
      else c)"

definition sre_fixes :: "nat \<Rightarrow> nat list" where
  "sre_fixes lo = (if lo = 0x69 then [0x131] else if lo = 0x73 then [0x17F] else [])"

definition chr_match :: "bool \<Rightarrow> nat \<Rightarrow> nat \<Rightarrow> bool" where
  "chr_match ignorecase c x =
     (if ignorecase then
        (let lo = sre_lower c in sre_lower x = lo \<or> sre_lower x \<in> set (sre_fixes lo))
      else x = c)"

definition cls_match :: "bool \<Rightarrow> (nat \<times> nat) list \<Rightarrow> nat \<Rightarrow> bool" where
  "cls_match ignorecase ranges x =
     (if ignorecase then
        list_ex (\<lambda>(a, b). list_ex (\<lambda>c. chr_match True c x) [a ..< Suc b]) ranges
      else list_ex (\<lambda>(a, b). a \<le> x \<and> x \<le> b) ranges)"

text \<open>\<open>\w\<close> of a \<open>str\<close> pattern: alphanumeric or the underscore.\<close>

definition is_word_char :: "ucd \<Rightarrow> nat \<Rightarrow> bool" where
  "is_word_char U c = (uc_isalnum U c \<or> c = 0x5F)"

definition word_boundary :: "ucd \<Rightarrow> ustr \<Rightarrow> nat \<Rightarrow> bool" where
  "word_boundary U t i =
     ((0 < i \<and> i \<le> length t \<and> is_word_char U (t ! (i - 1))) \<noteq>
      (i < length t \<and> is_word_char U (t ! i)))"

text \<open>
  The closure of a set of positions under one more repetition of the body of a star.
  Positions never exceed the length of the text, so \<open>length t + 1\<close> rounds reach the
  closure.
\<close>

fun star_iter :: "(nat \<Rightarrow> nat list) \<Rightarrow> nat \<Rightarrow> nat list \<Rightarrow> nat list" where
  "star_iter f 0 ps = ps"
| "star_iter f (Suc n) ps =
     (let qs = remdups (ps @ concat (map f ps))
      in if length qs = length ps then ps else star_iter f n qs)"

text \<open>
  \<open>ends U ic r t i\<close>: the positions at which a match of \<open>r\<close> that starts at position \<open>i\<close>
  of \<open>t\<close> can end. \<open>$\<close> (without \<open>re.MULTILINE\<close>) holds at the end of the text and before a
  final newline.
\<close>

primrec ends :: "ucd \<Rightarrow> bool \<Rightarrow> regex \<Rightarrow> ustr \<Rightarrow> nat \<Rightarrow> nat list" where
  "ends U ic REps = (\<lambda>t i. [i])"
| "ends U ic (RChr c) = (\<lambda>t i. if i < length t \<and> chr_match ic c (t ! i) then [Suc i] else [])"
| "ends U ic (RCls rs) = (\<lambda>t i. if i < length t \<and> cls_match ic rs (t ! i) then [Suc i] else [])"
| "ends U ic RDigit = (\<lambda>t i. if i < length t \<and> uc_isdecimal U (t ! i) then [Suc i] else [])"
| "ends U ic RBol = (\<lambda>t i. if i = 0 then [i] else [])"
| "ends U ic REol =
     (\<lambda>t i. if i = length t \<or> (Suc i = length t \<and> t ! i = 10) then [i] else [])"
| "ends U ic RWordB = (\<lambda>t i. if word_boundary U t i then [i] else [])"
| "ends U ic (RSeq r q) = (\<lambda>t i. remdups (concat (map (ends U ic q t) (ends U ic r t i))))"
| "ends U ic (RAlt r q) = (\<lambda>t i. remdups (ends U ic r t i @ ends U ic q t i))"
| "ends U ic (RStar r) = (\<lambda>t i. star_iter (ends U ic r t) (Suc (length t)) [i])"

text \<open>\<open>re.match\<close> and \<open>re.search\<close>, as truth values.\<close>

definition re_match :: "ucd \<Rightarrow> bool \<Rightarrow> regex \<Rightarrow> ustr \<Rightarrow> bool" where
  "re_match U ic r t = (ends U ic r t 0 \<noteq> [])"

definition re_search :: "ucd \<Rightarrow> bool \<Rightarrow> regex \<Rightarrow> ustr \<Rightarrow> bool" where
  "re_search U ic r t = list_ex (\<lambda>i. ends U ic r t i \<noteq> []) [0 ..< Suc (length t)]"

section \<open>TextClassifier\<close>

text \<open>The set \<open>ENGLISH_CHOICE_WORDS\<close>, written out three times in the source.\<close>

definition ENGLISH_CHOICE_WORDS :: "ustr list" where
  "ENGLISH_CHOICE_WORDS =
     map ascii [''yes'', ''no'', ''ok'', ''cancel'', ''accept'', ''decline'', ''close'']"

text \<open>The character classes \<open>[0-9]\<close>, \<open>[a-z]\<close>, \<open>[A-Z]\<close> and \<open>[a-zA-Z0-9_]\<close>.\<close>

definition cls_09 :: regex where
  "cls_09 = RCls [(48, 57)]"

definition cls_az :: regex where
  "cls_az = RCls [(97, 122)]"

definition cls_AZ :: regex where
  "cls_AZ = RCls [(65, 90)]"

definition cls_ident :: regex where
  "cls_ident = RCls [(97, 122), (65, 90), (48, 57), (95, 95)]"

text \<open>\<open>BYTECODE_PATTERNS\<close>, in the order of the source.\<close>

definition BYTECODE_PATTERNS :: "regex list" where
  "BYTECODE_PATTERNS =
     [RWord (ascii ''switch''),
      RWord (ascii ''case''),
      RWord (ascii ''default''),
      RSeq (RWord (ascii ''bg'')) (RPlus (RCls [(48, 57), (97, 102)])),
      RSeq (RChr 64) (RPlus cls_ident),
      RSeqs [RBol,
             RAlts (map (\<lambda>w. RWord (ascii w))
                      [''edga'', ''her'', ''zara'', ''ness'', ''pear'', ''rich'', ''rath'',
                       ''elza'', ''haniy'', ''zk'']),
             RPlus cls_09, RStar cls_az],
      RSeq (RWord (ascii ''suma'')) REol,
      RSeq (RWord (ascii ''scene_play'')) REol,
      RSeq (RWord (ascii ''flg_memory'')) REol,
      RSeqs [RBol, RChr 64, RPlus cls_ident, REol]]"

text \<open>
  \<open>SPEAKER_NAMES\<close>: ten names in lower-case Latin letters and their ten katakana
  spellings.
\<close>

definition SPEAKER_NAMES :: "ustr list" where
  "SPEAKER_NAMES =
     map ascii [''pearl'', ''richie'', ''nesso'', ''zara'', ''edgar'', ''elza'', ''rath'',
                ''guillan'', ''arles'', ''henrietta''] @
     [[0x30D1, 0x30FC, 0x30EB], [0x30EA, 0x30C3, 0x30C1, 0x30FC], [0x30CD, 0x30C3, 0x30BD],
      [0x30B6, 0x30E9], [0x30A8, 0x30C9, 0x30AC, 0x30FC], [0x30A8, 0x30EB, 0x30B6],
      [0x30E9, 0x30B9], [0x30AE, 0x30E9, 0x30F3], [0x30A2, 0x30EB, 0x30EB],
      [0x30D8, 0x30F3, 0x30EA, 0x30A8, 0x30C3, 0x30BF]]"

text \<open>
  The test on one word in the density heuristic of \<open>is_bytecode\<close>:
  \<open>word.startswith('@') or re.match(r'^[a-z]{1,3}$', word) or
  re.match(r'^[a-z]+\d+$', word) or len(word) < 3\<close>.
\<close>

definition bytecode_word :: "ucd \<Rightarrow> ustr \<Rightarrow> bool" where
  "bytecode_word U word =
     (startswith word (ascii ''@'')
      \<or> re_match U False (RSeqs [RBol, cls_az, ROpt (RSeq cls_az (ROpt cls_az)), REol]) word
      \<or> re_match U False (RSeqs [RBol, RPlus cls_az, RPlus RDigit, REol]) word
      \<or> length word < 3)"

text \<open>
  \<open>is_bytecode\<close>. The source compares the float \<open>bytecode_count / len(words)\<close> with
  \<open>0.85\<close>; for word counts below \<open>2 ^ 49\<close> the rounded quotient exceeds the rounded
  constant exactly when \<open>20 * bytecode_count > 17 * len(words)\<close>.
\<close>

definition is_bytecode :: "ucd \<Rightarrow> ustr \<Rightarrow> bool" where
  "is_bytecode U text0 =
     (let text = strip text0 in
      if py_lower text \<in> set ENGLISH_CHOICE_WORDS then False
      else if list_ex (\<lambda>pattern. re_match U True pattern text) BYTECODE_PATTERNS then True
      else
        (let words = py_split text in
         if length words > 5 then
           (let bytecode_count = length (filter (bytecode_word U) words)
            in 20 * bytecode_count > 17 * length words)
         else False))"

text \<open>\<open>is_name_indicator\<close>: the pattern \<open>^#Name\[[0-9]+\]$\<close> on the stripped text.\<close>

definition is_name_indicator :: "ucd \<Rightarrow> ustr \<Rightarrow> bool" where
  "is_name_indicator U text0 =
     re_match U False
       (RSeqs [RBol, RWord (ascii ''#Name[''), RPlus cls_09, RChr 93, REol]) (strip text0)"

definition is_speaker_name :: "ustr \<Rightarrow> bool" where
  "is_speaker_name text0 = (py_lower (strip_nul (strip text0)) \<in> set SPEAKER_NAMES)"

text \<open>\<open>sub in s\<close> for strings.\<close>

definition contains :: "ustr \<Rightarrow> ustr \<Rightarrow> bool" where
  "contains s sub = list_ex (\<lambda>i. startswith (drop i s) sub) [0 ..< Suc (length s)]"

text \<open>\<open>sum(1 for c in text if c.isalpha())\<close>\<close>

definition alpha_count :: "ucd \<Rightarrow> ustr \<Rightarrow> nat" where
  "alpha_count U s = length (filter (uc_isalpha U) s)"

text \<open>
  \<open>should_combine_entries\<close>, on the two texts (the source passes dictionaries of which it
  reads the key \<open>text\<close> only). The terminal punctuation class holds the ideographic full
  stop, the full-width exclamation and question marks, \<open>.\<close>, \<open>!\<close>, \<open>?\<close>, \<open>"\<close>, the closing
  white corner bracket, the full-width closing parenthesis, \<open>]\<close> and the ellipsis.
\<close>

definition terminal_class :: regex where
  "terminal_class =
     RCls [(0x3002, 0x3002), (0xFF01, 0xFF01), (0xFF1F, 0xFF1F), (46, 46), (33, 33), (63, 63),
           (34, 34), (0x300F, 0x300F), (0xFF09, 0xFF09), (93, 93), (0x2026, 0x2026)]"

definition continuation_start :: regex where
  "continuation_start =
     RSeq RBol (RCls [(97, 122), (40, 40), (0x300C, 0x300C), (0x300E, 0x300E),
                      (0xFF08, 0xFF08)])"

definition should_combine_entries :: "ucd \<Rightarrow> ustr \<Rightarrow> ustr \<Rightarrow> bool" where
  "should_combine_entries U prev_text curr_text =
     (if is_bytecode U curr_text \<or> is_name_indicator U curr_text then False
      else if contains prev_text (ascii '' ['') \<and> endswith (rstrip prev_text) (ascii '']'')
        then False
      else
        (let prev_has_japanese = has_japanese prev_text;
             prev_has_english = (alpha_count U prev_text > 2);
             curr_has_japanese = has_japanese curr_text;
             curr_has_english = (alpha_count U curr_text > 2)
         in
           if curr_has_japanese \<and> curr_has_english then False
           else if prev_has_japanese \<and> curr_has_english \<and> \<not> curr_has_japanese then False
           else if prev_has_english \<and> curr_has_japanese \<and> \<not> curr_has_english then False
           else if length prev_text > 3 \<and> \<not> re_search U False terminal_class prev_text
             then True
           else if re_match U False continuation_start curr_text then True
           else
             (let open_parens = count_char prev_text 40 + count_char prev_text 0xFF08;
                  close_parens = count_char prev_text 41 + count_char prev_text 0xFF09
              in open_parens > close_parens)))"

section \<open>Utterances\<close>

text \<open>
  The dictionaries of the assembler have the keys \<open>index\<close>, \<open>text\<close>, \<open>speaker\<close> and \<open>type\<close>;
  a combined choice entry has \<open>is_choice\<close>, \<open>choice_count\<close> and \<open>choice_options\<close> as well,
  which are \<open>False\<close>, \<open>0\<close> and the empty list where the key is absent.
\<close>

record utterance =
  u_index :: int
  u_text :: ustr
  u_speaker :: ustr
  u_type :: nat
  u_is_choice :: bool
  u_choice_count :: nat
  u_choice_options :: "ustr list"

text \<open>A dictionary with the four keys \<open>index\<close>, \<open>text\<close>, \<open>speaker\<close> and \<open>type\<close>.\<close>

definition mk_utterance :: "int \<Rightarrow> ustr \<Rightarrow> ustr \<Rightarrow> nat \<Rightarrow> utterance" where
  "mk_utterance idx txt speaker tp =
     \<lparr>u_index = idx, u_text = txt, u_speaker = speaker, u_type = tp, u_is_choice = False,
      u_choice_count = 0, u_choice_options = []\<rparr>"

text \<open>
  \<open>is_choice_candidate\<close>. The three patterns are \<open>^[aiueo]+$\<close> over the five hiragana
  vowels, \<open>^[.!?]+$\<close> over the ideographic full stop and the full-width exclamation and
  question marks, and the class of closing punctuation before \<open>$\<close>.
\<close>

definition vowels_only :: regex where
  "vowels_only =
     RSeqs [RBol,
            RPlus (RCls [(0x3042, 0x3042), (0x3044, 0x3044), (0x3046, 0x3046),
                         (0x3048, 0x3048), (0x304A, 0x304A)]),
            REol]"

definition punctuation_only :: regex where
  "punctuation_only =
     RSeqs [RBol, RPlus (RCls [(0x3002, 0x3002), (0xFF01, 0xFF01), (0xFF1F, 0xFF1F)]), REol]"

definition closing_punctuation :: regex where
  "closing_punctuation =
     RSeq (RCls [(0x3002, 0x3002), (0xFF01, 0xFF01), (0x300F, 0x300F), (0xFF09, 0xFF09),
                 (0x300D, 0x300D)]) REol"

definition is_choice_candidate :: "ucd \<Rightarrow> utterance \<Rightarrow> bool" where
  "is_choice_candidate U entry =
     (let text = strip (u_text entry);
          entry_type = u_type entry;
          text_len = length text
      in
        if text_len < 2 \<or> text_len > 10 then False
        else if entry_type = 2 \<and> \<not> has_japanese text then
          py_lower text \<in> set ENGLISH_CHOICE_WORDS
        else if \<not> has_japanese text then False
        else if is_speaker_name text then False
        else if is_bytecode U text then False
        else if endswith text [0xFF1F] \<or> endswith text [0x304B, 0xFF1F] then False
        else if length text \<ge> 2 \<and> length (remdups text) = 1 \<and> re_match U False vowels_only text
          then False
        else if re_match U False punctuation_only text then False
        else if re_search U False closing_punctuation text then False
        else True)"

section \<open>ChoiceGrouper\<close>

text \<open>
  The outer loop of \<open>group_related_choices\<close> walks the candidates; each round takes the
  candidate at \<open>i\<close> and the candidates after it for as long as
  \<open>next_index - current_index <= 50\<close>, and goes on behind them. \<open>choice_groups\<close> is
  the list of the groups it forms.
\<close>

definition in_window :: "int \<Rightarrow> utterance \<Rightarrow> bool" where
  "in_window current_index next_choice = (u_index next_choice - current_index \<le> 50)"

function choice_groups :: "utterance list \<Rightarrow> utterance list list" where
  "choice_groups [] = []"
| "choice_groups (current # rest) =
     (current # takeWhile (in_window (u_index current)) rest) #
     choice_groups (dropWhile (in_window (u_index current)) rest)"
  by pat_completeness auto
termination
  by (relation "measure length") (auto simp: le_imp_less_Suc length_dropWhile_le)

text \<open>\<open>2 <= len(group) <= 5\<close>\<close>

definition convertible :: "utterance list \<Rightarrow> bool" where
  "convertible grp = (2 \<le> length grp \<and> length grp \<le> 5)"

text \<open>The combined choice entry of a group.\<close>

definition combined_entry :: "utterance list \<Rightarrow> utterance" where
  "combined_entry grp =
     (let choice_texts = map (\<lambda>e. strip (u_text e)) grp;
          combined_text = py_join (ascii '' / '') choice_texts
      in \<lparr>u_index = u_index (hd grp),
          u_text = combined_text,
          u_speaker = [],
          u_type = 2,
          u_is_choice = True,
          u_choice_count = length choice_texts,
          u_choice_options = choice_texts\<rparr>)"

text \<open>
  The source marks the members of a converted group with the key \<open>_remove\<close> and then
  keeps the entries without the mark. Every entry is a dictionary of its own, so the
  marks are one truth value for each candidate, in the order of the candidates, and the
  filter reads them off while it walks the entries.
\<close>

fun remove_marked :: "ucd \<Rightarrow> utterance list \<Rightarrow> bool list \<Rightarrow> utterance list" where
  "remove_marked U [] marks = []"
| "remove_marked U (e # es) marks =
     (if is_choice_candidate U e then
        (case marks of
           [] \<Rightarrow> e # remove_marked U es []
         | m # ms \<Rightarrow> (if m then remove_marked U es ms else e # remove_marked U es ms))
      else e # remove_marked U es marks)"

definition group_related_choices :: "ucd \<Rightarrow> utterance list \<Rightarrow> utterance list" where
  "group_related_choices U entries =
     (let choice_candidates = filter (is_choice_candidate U) entries in
      if choice_candidates = [] then entries
      else
        (let groups = choice_groups choice_candidates;
             marks = concat (map (\<lambda>grp. replicate (length grp) (convertible grp)) groups);
             grouped = map combined_entry (filter convertible groups);
             result = remove_marked U entries marks @ grouped
         in sort_key u_index result))"

section \<open>The admission filter\<close>

text \<open>
  The list \<open>bytecode_patterns\<close> inside \<open>_is_valid_text\<close>, in the order of the source. Each
  is searched with \<open>re.IGNORECASE\<close>.
\<close>

definition valid_text_patterns :: "regex list" where
  "valid_text_patterns =
     [RSeq RWordB (RWord (ascii ''Release_'')),
      RSeq RWordB (RWord (ascii ''Rute_count_'')),
      RSeqs [RWordB, RWord (ascii ''Fav''), cls_AZ],
      RSeq RWordB (RWord (ascii ''LH_sel_'')),
      RSeqs [RWordB, RWord (ascii ''sure''), RPlus RDigit],
      RSeqs [RWordB, RWord (ascii ''suma''), RWordB],
      RSeq RWordB (RWord (ascii ''memory_'')),
      RSeq RWordB (RWord (ascii ''COLLECTION_LINK'')),
      RSeq RWordB (RWord (ascii ''EXPORT_DATA'')),
      RSeq RWordB (RWord (ascii ''switch'')),
      RSeq RWordB (RWord (ascii ''scene_play'')),
      RSeq RWordB (RWord (ascii ''rathL'')),
      RSeq RWordB (RWord (ascii ''elzaL'')),
      RSeq RWordB (RWord (ascii ''zara0'')),
      RSeq RWordB (RWord (ascii ''ness0'')),
      RSeqs [RWordB, RWord (ascii ''her''), RPlus RDigit],
      RSeqs [RWordB, RWord (ascii ''zk''), RPlus RDigit],
      RSeqs [RWordB, RWord (ascii ''bg''), RPlus RDigit],
      RSeqs [RWordB, cls_AZ, RPlus cls_az, RChr 95,
             RAlt (RWord (ascii ''bad'')) (RWord (ascii ''good'')),
             RWord (ascii ''_end''), RWordB],
      RSeqs [RWordB, RWord (ascii ''TrueEnd''), RWordB],
      RSeqs [RBol, cls_AZ, RPlus cls_az, RChr 95,
             RPlus (RCls [(65, 90), (97, 122), (95, 95)]), REol],
      RSeqs [RWordB, RWord (ascii ''ef_''), RPlus (RCls [(97, 122), (48, 57), (95, 95)]),
             RWordB],
      RSeqs [RWordB, RWord (ascii ''select''), RWordB],
      RSeqs [RWordB, RWord (ascii ''export_data''), RWordB],
      RSeqs [RBol, RPlus cls_az, RPlus RDigit, RStar cls_az, RChr 95, RPlus cls_az, REol],
      RSeqs [RBol, RPlus cls_az, RPlus RDigit, REol],
      RSeqs [RBol, cls_az, cls_az, cls_az, ROpt (RSeq cls_az (ROpt cls_az)), REol]]"

text \<open>\<open>any(0x3040 <= ord(c) <= 0x9FFF for c in text)\<close>\<close>

definition has_script :: "ustr \<Rightarrow> bool" where
  "has_script s = list_ex (\<lambda>c. 0x3040 \<le> c \<and> c \<le> 0x9FFF) s"

text \<open>
  \<open>_is_valid_text\<close>. The two float comparisons \<open>control_count > len(text) / 4\<close> and
  \<open>at_count > len(text) / 10\<close> have an integer on the left, so they hold exactly when
  \<open>4 * control_count > len(text)\<close> and \<open>10 * at_count > len(text)\<close>. The loop over the
  patterns returns \<open>False\<close> at the first pattern found in a text without script
  characters.
\<close>

definition is_valid_text :: "ucd \<Rightarrow> ustr \<Rightarrow> bool" where
  "is_valid_text U text0 =
     (if text0 = [] \<or> length (strip text0) < 2 then False
      else if 0xFFFD \<in> set text0 then False
      else
        (let control_count =
               length (filter (\<lambda>c. c < 32 \<and> c \<noteq> 10 \<and> c \<noteq> 13 \<and> c \<noteq> 9) text0)
         in
           if 4 * control_count > length text0 then False
           else if startswith text0 (ascii ''@'') \<and> length text0 < 5 then False
           else if length text0 > 10 \<and> 10 * count_char text0 64 > length text0 then False
           else
             (let text_stripped = strip text0 in
                if is_speaker_name text_stripped then True
                else if py_lower text_stripped \<in> set ENGLISH_CHOICE_WORDS then True
                else if list_ex (\<lambda>pattern. re_search U True pattern text_stripped)
                          valid_text_patterns \<and> \<not> has_script text0
                  then False
                else has_script text0 \<or> alpha_count U text0 \<ge> 2)))"

section \<open>Vocabulary of the specification\<close>

text \<open>
  ``The text begins with the word \<open>w\<close>, case-insensitively'', for a word \<open>w\<close> of the letters
  \<open>a\<close>..\<open>z\<close>. In the plain sense the first \<open>length w\<close> characters, with \<open>A\<close>..\<open>Z\<close> turned
  into \<open>a\<close>..\<open>z\<close>, are the word \<open>w\<close>.
\<close>

definition ascii_lower :: "nat \<Rightarrow> nat" where
  "ascii_lower c = (if 65 \<le> c \<and> c \<le> 90 then c + 32 else c)"

definition begins_with_ci :: "ustr \<Rightarrow> ustr \<Rightarrow> bool" where
  "begins_with_ci s w = (length w \<le> length s \<and> map ascii_lower (take (length w) s) = w)"

text \<open>
  In the sense of Unicode a letter \<open>c\<close> of \<open>a\<close>..\<open>z\<close> has more case variants than itself and
  its capital: the dotted capital I (U+0130) and the dotless small i (U+0131) for \<open>i\<close>,
  the long s (U+017F) for \<open>s\<close>, and the Kelvin sign (U+212A) for \<open>k\<close>.
\<close>

definition same_letter :: "nat \<Rightarrow> nat \<Rightarrow> bool" where
  "same_letter c x =
     (x = c \<or> x + 32 = c \<or> (c = 0x69 \<and> (x = 0x130 \<or> x = 0x131))
      \<or> (c = 0x73 \<and> x = 0x17F) \<or> (c = 0x6B \<and> x = 0x212A))"

definition begins_with_fold :: "ustr \<Rightarrow> ustr \<Rightarrow> bool" where
  "begins_with_fold s w = list_all2 same_letter w (take (length w) s)"

text \<open>
  ``The recorded byte offset increases strictly from \<open>a\<close> to \<open>b\<close>'': both entries have an
  offset, and that of \<open>a\<close> is the smaller one.
\<close>

definition offset_before :: "raw_entry \<Rightarrow> raw_entry \<Rightarrow> bool" where
  "offset_before a b =
     (case r_offset a of
        None \<Rightarrow> False
      | Some x \<Rightarrow> (case r_offset b of None \<Rightarrow> False | Some y \<Rightarrow> x < y))"

section \<open>Auxiliary notions for the ChoiceGrouper\<close>

text \<open>
  What a second pass sees of a group of the first pass: the combined entry if the group
  was converted and the combined entry is a choice candidate itself, nothing if it is
  not, and the group as it is if it was not converted.
\<close>

definition block :: "ucd \<Rightarrow> utterance list \<Rightarrow> utterance list" where
  "block U grp =
     (if convertible grp then filter (is_choice_candidate U) [combined_entry grp] else grp)"

text \<open>
  Groups formed over indices in non-decreasing order: each is not empty and in
  non-decreasing order, its members lie in the window of its first member, and
  all members of later groups lie beyond that window.
\<close>

fun separated :: "utterance list list \<Rightarrow> bool" where
  "separated [] = True"
| "separated (g # gs) =
     (g \<noteq> [] \<and> sorted (map u_index g)
      \<and> (\<forall>e \<in> set g. u_index e - u_index (hd g) \<le> 50)
      \<and> (\<forall>e \<in> set (concat gs). u_index e - u_index (hd g) > 50)
      \<and> separated gs)"

definition block_of :: "utterance list \<Rightarrow> utterance list \<Rightarrow> bool" where
  "block_of b g =
     ((b = [] \<or> u_index (hd b) = u_index (hd g)) \<and> u_index ` set b \<subseteq> u_index ` set g
      \<and> sorted (map u_index b))"


text \<open>
  Example entries: the choice option \<open>hai\<close> (two hiragana) with tag \<open>0x04\<close> at a given
  index, the same text after a space, and the option \<open>iie\<close> (three hiragana).
\<close>

definition hai :: "int \<Rightarrow> utterance" where
  "hai i = mk_utterance i [0x306F, 0x3044] [] 4"

definition spaced_hai :: "int \<Rightarrow> utterance" where
  "spaced_hai i = mk_utterance i [0x20, 0x306F, 0x3044] [] 4"

definition iie :: "int \<Rightarrow> utterance" where
  "iie i = mk_utterance i [0x3044, 0x3044, 0x3048] [] 4"

text \<open>A line of narration (tag \<open>0x12\<close>) with the text \<open>The door opened.\<close>\<close>

definition narration :: "int \<Rightarrow> utterance" where
  "narration i = mk_utterance i (ascii ''The door opened.'') [] 0x12"

text \<open>
  An entry as the assembler reads it: index, type and text (the size is the length of
  the text, which is its size in bytes for the ASCII texts used here).
\<close>

definition fragment :: "int \<Rightarrow> nat \<Rightarrow> ustr \<Rightarrow> raw_entry" where
  "fragment i tp txt =
     \<lparr>r_index = i, r_type = tp, r_text = txt, r_size = length txt, r_offset = None\<rparr>"

text \<open>
  The two fragments \<open>He said "hello\<close> and \<open>world" and left.\<close> and the text made of them
  with a space between.
\<close>

definition he_said_hello :: ustr where
  "he_said_hello = ascii ''He said '' @ [0x22] @ ascii ''hello''"

definition world_and_left :: ustr where
  "world_and_left = ascii ''world'' @ [0x22] @ ascii '' and left.''"

definition he_said_hello_world_and_left :: ustr where
  "he_said_hello_world_and_left =
     ascii ''He said '' @ [0x22] @ ascii ''hello world'' @ [0x22] @ ascii '' and left.''"

text \<open>
  A buffer of two compact entries: type 4, index 1, size 5, \<open>Pearl\<close> at offset 0 and type
  4, index 2, size 5, \<open>Nesso\<close> at offset 17.
\<close>

definition two_compact_entries :: "byte list" where
  "two_compact_entries =
     [0x04, 0x00, 0x00, 0x00, 0x01, 0x00, 0x00, 0x00, 0x05, 0x00, 0x00, 0x00,
      0x50, 0x65, 0x61, 0x72, 0x6C,
      0x04, 0x00, 0x00, 0x00, 0x02, 0x00, 0x00, 0x00, 0x05, 0x00, 0x00, 0x00,
      0x4E, 0x65, 0x73, 0x73, 0x6F]"

text \<open>
  A buffer of 29 bytes with two compact headers: at offset 0 type 4, index 70000 and
  size 100, which reaches beyond the end of the buffer, and at offset 12 type 4, index 2
  and size 5 with the text \<open>Pearl\<close>.
\<close>

definition overrun_then_entry :: "byte list" where
  "overrun_then_entry =
     [0x04, 0x00, 0x00, 0x00, 0x70, 0x11, 0x01, 0x00, 0x64, 0x00, 0x00, 0x00,
      0x04, 0x00, 0x00, 0x00, 0x02, 0x00, 0x00, 0x00, 0x05, 0x00, 0x00, 0x00,
      0x50, 0x65, 0x61, 0x72, 0x6C]"

text \<open>
  A buffer of 28 bytes: \<open>Hello\<close> and a zero byte, the marker \<open>CODE_START_\<close> at offset 6
  and a zero byte, \<open>World\<close> at offset 18 and five zero bytes; and the same buffer with
  \<open>Jello\<close> for \<open>Hello\<close>.
\<close>

definition hello_marker_world :: "byte list" where
  "hello_marker_world =
     [0x48, 0x65, 0x6C, 0x6C, 0x6F, 0x00,
      0x43, 0x4F, 0x44, 0x45, 0x5F, 0x53, 0x54, 0x41, 0x52, 0x54, 0x5F, 0x00,
      0x57, 0x6F, 0x72, 0x6C, 0x64, 0x00, 0x00, 0x00, 0x00, 0x00]"

definition jello_marker_world :: "byte list" where
  "jello_marker_world =
     [0x4A, 0x65, 0x6C, 0x6C, 0x6F, 0x00,
      0x43, 0x4F, 0x44, 0x45, 0x5F, 0x53, 0x54, 0x41, 0x52, 0x54, 0x5F, 0x00,
      0x57, 0x6F, 0x72, 0x6C, 0x64, 0x00, 0x00, 0x00, 0x00, 0x00]"

text \<open>
  A buffer of 29 bytes with one padded entry at offset 0: four zero bytes, type 4, index
  1, size 5, \<open>Pearl\<close>, and eight zero bytes.
\<close>

definition padded_pearl :: "byte list" where
  "padded_pearl =
     [0x00, 0x00, 0x00, 0x00,
      0x04, 0x00, 0x00, 0x00, 0x01, 0x00, 0x00, 0x00, 0x05, 0x00, 0x00, 0x00,
      0x50, 0x65, 0x61, 0x72, 0x6C,
      0x00, 0x00, 0x00, 0x00, 0x00, 0x00, 0x00, 0x00]"

section \<open>EntryExtractor\<close>

subsection \<open>Bytes\<close>

text \<open>
  \<open>data[i]\<close> for \<open>0 \<le> i\<close> raises \<open>IndexError\<close> beyond the end of the buffer; the error is
  the value \<open>None\<close>.
\<close>

definition byte_at :: "byte list \<Rightarrow> nat \<Rightarrow> byte option" where
  "byte_at data i = (if i < length data then Some (data ! i) else None)"

text \<open>
  \<open>data[pos] == 0x00 and data[pos+1] == 0x00 and ...\<close> over \<open>n\<close> bytes: the first byte
  that is not zero decides, and the bytes behind it are not read.
\<close>

fun all_null :: "byte list \<Rightarrow> nat \<Rightarrow> nat \<Rightarrow> bool option" where
  "all_null data pos 0 = Some True"
| "all_null data pos (Suc n) =
     (case byte_at data pos of
        None \<Rightarrow> None
      | Some b \<Rightarrow> if b \<noteq> 0 then Some False else all_null data (Suc pos) n)"

text \<open>\<open>bs.rstrip(b'\x00')\<close>\<close>

definition rstrip_null :: "byte list \<Rightarrow> byte list" where
  "rstrip_null bs = rev (dropWhile (\<lambda>b. b = 0) (rev bs))"

subsection \<open>Decoding UTF-8\<close>

text \<open>
  \<open>bs.decode('utf-8', errors='replace')\<close>. The decoder accepts the well-formed byte
  sequences of the Unicode standard (no overlong forms, no surrogates, nothing above
  U+10FFFF) and puts one U+FFFD for each maximal ill-formed part: a byte that cannot
  start a sequence, or the bytes of a sequence up to the first byte that cannot continue
  it, or a sequence cut off by the end of the input. It never raises.
\<close>

definition continuation :: "byte \<Rightarrow> bool" where
  "continuation c = (0x80 \<le> c \<and> c \<le> 0xBF)"

definition second_of_three :: "byte \<Rightarrow> byte \<Rightarrow> bool" where
  "second_of_three b c =
     (continuation c \<and> \<not> (b = 0xE0 \<and> c < 0xA0) \<and> \<not> (b = 0xED \<and> 0xA0 \<le> c))"

definition second_of_four :: "byte \<Rightarrow> byte \<Rightarrow> bool" where
  "second_of_four b c =
     (continuation c \<and> \<not> (b = 0xF0 \<and> c < 0x90) \<and> \<not> (b = 0xF4 \<and> 0x90 \<le> c))"

fun utf8_decode :: "byte list \<Rightarrow> ustr" where
  "utf8_decode [] = []"
| "utf8_decode (b # bs) =
     (if b < 0x80 then unat b # utf8_decode bs
      else if b < 0xC2 \<or> 0xF4 < b then 0xFFFD # utf8_decode bs
      else if b < 0xE0 then
        (case bs of
           [] \<Rightarrow> [0xFFFD]
         | c # cs \<Rightarrow>
             if continuation c
             then ((unat b - 0xC0) * 64 + (unat c - 0x80)) # utf8_decode cs
             else 0xFFFD # utf8_decode bs)
      else if b < 0xF0 then
        (case bs of
           [] \<Rightarrow> [0xFFFD]
         | c # cs \<Rightarrow>
             if \<not> second_of_three b c then 0xFFFD # utf8_decode bs
             else
               (case cs of
                  [] \<Rightarrow> [0xFFFD]
                | d # ds \<Rightarrow>
                    if continuation d
                    then ((unat b - 0xE0) * 4096 + (unat c - 0x80) * 64 + (unat d - 0x80))
                         # utf8_decode ds
                    else 0xFFFD # utf8_decode cs))
      else
        (case bs of
           [] \<Rightarrow> [0xFFFD]
         | c # cs \<Rightarrow>
             if \<not> second_of_four b c then 0xFFFD # utf8_decode bs
             else
               (case cs of
                  [] \<Rightarrow> [0xFFFD]
                | d # ds \<Rightarrow>
                    if \<not> continuation d then 0xFFFD # utf8_decode cs
                    else
                      (case ds of
                         [] \<Rightarrow> [0xFFFD]
                       | e # es \<Rightarrow>
                           if continuation e
                           then ((unat b - 0xF0) * 262144 + (unat c - 0x80) * 4096
                                 + (unat d - 0x80) * 64 + (unat e - 0x80)) # utf8_decode es
                           else 0xFFFD # utf8_decode ds))))"

text \<open>\<open>len(text.encode('utf-8'))\<close> for a text without surrogates.\<close>

definition utf8_length :: "ustr \<Rightarrow> nat" where
  "utf8_length s =
     sum_list (map (\<lambda>c. if c < 0x80 then 1 else if c < 0x800 then 2
                          else if c < 0x10000 then 3 else 4) s)"

subsection \<open>One round of a scan\<close>

text \<open>
  What one round of the \<open>while\<close> loop of a strategy does: it leaves the loop (\<open>break\<close>), or
  it goes on at a new position, having appended one entry or none.
\<close>

datatype outcome = Break | Goto nat "raw_entry option"

text \<open>
  The size of a type \<open>0x10\<close> entry is found by a scan of at most 500 bytes for a zero
  byte with at least two zero bytes among the four bytes from it on. Every read is
  guarded by a comparison with the length of the buffer.
\<close>

definition null_count :: "byte list \<Rightarrow> nat \<Rightarrow> nat" where
  "null_count data text_end =
     length (filter (\<lambda>i. text_end + i < length data \<and> data ! (text_end + i) = 0) [0 ..< 4])"

function padded_text_end :: "byte list \<Rightarrow> nat \<Rightarrow> nat \<Rightarrow> nat" where
  "padded_text_end data text_start text_end =
     (if text_end < length data \<and> text_end - text_start < 500 then
        (if data ! text_end = 0 then
           (if null_count data text_end \<ge> 2 then text_end
            else padded_text_end data text_start (text_end + 1))
         else padded_text_end data text_start (text_end + 1))
      else text_end)"
  by pat_completeness auto
termination
  by (relation "measure (\<lambda>(data, text_start, text_end). length data - text_end)") auto

function compact_text_end :: "byte list \<Rightarrow> nat \<Rightarrow> nat \<Rightarrow> nat" where
  "compact_text_end data text_start text_end =
     (if text_end < length data \<and> text_end - text_start < 500 then
        (if data ! text_end = 0 then
           (if text_end + 12 < length data \<and> null_count data text_end \<ge> 2 then text_end
            else compact_text_end data text_start (text_end + 1))
         else compact_text_end data text_start (text_end + 1))
      else text_end)"
  by pat_completeness auto
termination
  by (relation "measure (\<lambda>(data, text_start, text_end). length data - text_end)") auto

declare padded_text_end.simps [simp del] compact_text_end.simps [simp del]

subsection \<open>The padded strategy\<close>

definition padded_types :: "nat list" where
  "padded_types =
     [0x01, 0x02, 0x03, 0x04, 0x05, 0x06, 0x07, 0x08, 0x09, 0x0A, 0x0B, 0x0C, 0x0F, 0x10,
      0x11, 0x12]"

definition padded_next_types :: "nat list" where
  "padded_next_types =
     [0x01, 0x02, 0x03, 0x04, 0x05, 0x06, 0x07, 0x08, 0x09, 0x0A, 0x0B, 0x0C, 0x0D, 0x0E,
      0x10, 0x11]"

text \<open>
  The size check of \<open>_parse_padded_format\<close>; \<open>None\<close> is a failed check
  (\<open>pos += 1; continue\<close>).
\<close>

definition padded_size :: "byte list \<Rightarrow> nat \<Rightarrow> nat \<Rightarrow> nat \<Rightarrow> nat option" where
  "padded_size data text_start entry_type entry_size =
     (if entry_type = 0x10 then
        (let text_end = padded_text_end data text_start text_start;
             entry_size = text_end - text_start
         in if entry_size < 1 then None else Some entry_size)
      else if entry_size < 1 \<or> entry_size > 10000 then None
      else Some entry_size)"

text \<open>
  The test inside the loop that skips to the next entry: four zero bytes at \<open>pos\<close> and,
  behind four or eight zero bytes, a type of the list and a size in range. \<open>None\<close> is an
  exception.
\<close>

definition padded_next_header :: "byte list \<Rightarrow> nat \<Rightarrow> bool option" where
  "padded_next_header data pos =
     do {
       pad \<leftarrow> all_null data pos 4;
       if pad then
         do {
           next_type4 \<leftarrow> unpack_I (py_slice data (pos + 4) (pos + 8));
           next_size4 \<leftarrow> unpack_I (py_slice data (pos + 12) (pos + 16));
           pad8 \<leftarrow> (if pos + 8 \<le> length data then all_null data (pos + 4) 4 else Some False);
           next_type \<leftarrow> (if pad8 then unpack_I (py_slice data (pos + 8) (pos + 12))
                         else Some next_type4);
           next_size \<leftarrow> (if pad8 then unpack_I (py_slice data (pos + 16) (pos + 20))
                         else Some next_size4);
           Some (next_type \<in> set padded_next_types
                 \<and> (next_type = 0x10 \<or> (1 \<le> next_size \<and> next_size \<le> 10000)))
         }
       else Some False
     }"

text \<open>
  The skipping loop. It is inside the \<open>try\<close> block: an exception at position \<open>pos\<close> leads
  to \<open>pos += 1\<close> in the handler, and the outer loop goes on from there.
\<close>

function padded_skip :: "byte list \<Rightarrow> nat \<Rightarrow> nat" where
  "padded_skip data pos =
     (if pos + 24 < length data then
        (case padded_next_header data pos of
           None \<Rightarrow> pos + 1
         | Some True \<Rightarrow> pos
         | Some False \<Rightarrow> padded_skip data (pos + 1))
      else pos)"
  by pat_completeness auto
termination
  by (relation "measure (\<lambda>(data, pos). length data - pos)") auto

declare padded_skip.simps [simp del]

text \<open>
  The \<open>try\<close> block of \<open>_parse_padded_format\<close> in two parts. \<open>padded_entry\<close> is what
  follows the three reads of the header: the checks of type, size and index, the check
  that the string fits, and the entry. None of its statements raises.
\<close>

definition padded_entry ::
  "ucd \<Rightarrow> byte list \<Rightarrow> nat \<Rightarrow> nat \<Rightarrow> nat \<Rightarrow> nat \<Rightarrow> nat \<Rightarrow> outcome" where
  "padded_entry U data pos padding_offset entry_type entry_index entry_size =
     (if entry_type \<notin> set padded_types then Goto (pos + 1) None
      else
        (case padded_size data (pos + padding_offset + 12) entry_type entry_size of
           None \<Rightarrow> Goto (pos + 1) None
         | Some entry_size \<Rightarrow>
             if entry_index > 100000 then Goto (pos + 1) None
             else
               (let string_end = pos + padding_offset + 12 + entry_size in
                if string_end > length data then Break
                else
                  (let string_data = py_slice data (pos + padding_offset + 12) string_end;
                       text = utf8_decode (rstrip_null string_data);
                       appended =
                         (if text \<noteq> [] \<and> is_valid_text U text
                          then Some \<lparr>r_index = int entry_index, r_type = entry_type,
                                     r_text = text, r_size = entry_size,
                                     r_offset = Some pos\<rparr>
                          else None)
                   in Goto (padded_skip data string_end) appended))))"

text \<open>The whole block; \<open>None\<close> is an exception.\<close>

definition padded_try :: "ucd \<Rightarrow> byte list \<Rightarrow> nat \<Rightarrow> outcome option" where
  "padded_try U data pos =
     do {
       pad \<leftarrow> all_null data pos 4;
       if \<not> pad then Some (Goto (pos + 1) None)
       else
         do {
           pad8 \<leftarrow> (if pos + 8 \<le> length data then all_null data (pos + 4) 4 else Some False);
           let padding_offset = (if pad8 then 8 else 4);
           entry_type \<leftarrow>
             unpack_I (py_slice data (pos + padding_offset) (pos + padding_offset + 4));
           entry_index \<leftarrow>
             unpack_I (py_slice data (pos + padding_offset + 4) (pos + padding_offset + 8));
           entry_size \<leftarrow>
             unpack_I (py_slice data (pos + padding_offset + 8) (pos + padding_offset + 12));
           Some (padded_entry U data pos padding_offset entry_type entry_index entry_size)
         }
     }"

text \<open>One round: the \<open>try\<close> block, or \<open>pos += 1\<close> of the handler.\<close>

definition padded_round :: "ucd \<Rightarrow> byte list \<Rightarrow> nat \<Rightarrow> outcome" where
  "padded_round U data pos =
     (case padded_try U data pos of None \<Rightarrow> Goto (pos + 1) None | Some r \<Rightarrow> r)"

text \<open>
  A round never goes back: it goes on behind \<open>pos\<close>. This is what makes the loop end.
\<close>

function padded_scan :: "ucd \<Rightarrow> byte list \<Rightarrow> nat \<Rightarrow> raw_entry list" where
  "padded_scan U data pos =
     (if pos + 24 < length data then
        (case padded_round U data pos of
           Break \<Rightarrow> []
         | Goto pos' appended \<Rightarrow>
             (case appended of None \<Rightarrow> [] | Some e \<Rightarrow> [e]) @ padded_scan U data pos')
      else [])"
  by pat_completeness auto
termination
proof (relation "measure (\<lambda>(U, data, pos). length data - pos)")
  show "wf (measure (\<lambda>(U, data, pos). length data - pos))" by simp
next
  fix U :: ucd and data :: "byte list" and pos pos' :: nat and appended :: "raw_entry option"
  assume guard: "pos + 24 < length data"
    and round: "padded_round U data pos = Goto pos' appended"
  have skip: "p \<le> padded_skip data p" for p
  proof (induction data p rule: padded_skip.induct)
    case (1 data pos)
    show ?case
    proof (cases "pos + 24 < length data")
      case False
      then show ?thesis by (simp add: padded_skip.simps)
    next
      case True
      show ?thesis
      proof (cases "padded_next_header data pos")
        case None
        with True show ?thesis by (simp add: padded_skip.simps)
      next
        case (Some found)
        show ?thesis
        proof (cases found)
          case True
          with Some \<open>pos + 24 < length data\<close> show ?thesis by (simp add: padded_skip.simps)
        next
          case False
          with "1.IH" [OF True Some] Some True
          have "pos + 1 \<le> padded_skip data (pos + 1)" by simp
          with False Some True show ?thesis by (simp add: padded_skip.simps)
        qed
      qed
    qed
  qed
  have entry: "pos < pos'"
    if "padded_entry U data pos padding_offset t i s = Goto pos' appended"
    for padding_offset t i s
  proof -
    from that
    have "pos' = pos + 1 \<or> (\<exists>n. pos' = padded_skip data (pos + padding_offset + 12 + n))"
      by (auto simp: padded_entry_def Let_def split: if_splits option.splits)
    then show ?thesis
    proof
      assume "pos' = pos + 1"
      then show ?thesis by simp
    next
      assume "\<exists>n. pos' = padded_skip data (pos + padding_offset + 12 + n)"
      then obtain n where "pos' = padded_skip data (pos + padding_offset + 12 + n)" ..
      with skip [of "pos + padding_offset + 12 + n"] show ?thesis by simp
    qed
  qed
  have "pos < pos'"
  proof (cases "padded_try U data pos")
    case None
    with round show ?thesis by (simp add: padded_round_def)
  next
    case (Some r)
    with round have t: "padded_try U data pos = Some (Goto pos' appended)"
      by (simp add: padded_round_def)
    show ?thesis
    proof (cases "all_null data pos 4 = Some True")
      case False
      with t have "pos' = pos + 1"
        by (cases "all_null data pos 4") (simp_all add: padded_try_def)
      then show ?thesis by simp
    next
      case True
      with t obtain padding_offset entry_type entry_index entry_size
        where "padded_entry U data pos padding_offset entry_type entry_index entry_size =
               Goto pos' appended"
        by (auto simp: padded_try_def Let_def bind_eq_Some_conv)
      then show ?thesis by (rule entry)
    qed
  qed
  with guard show "((U, data, pos'), (U, data, pos)) \<in> measure (\<lambda>(U, data, pos). length data - pos)"
    by simp
qed

declare padded_scan.simps [simp del]

text \<open>\<open>_parse_padded_format\<close>: the scan from the start of the buffer.\<close>

definition parse_padded_format :: "ucd \<Rightarrow> byte list \<Rightarrow> raw_entry list" where
  "parse_padded_format U data = padded_scan U data 0"

subsection \<open>The compact strategy\<close>

definition compact_types :: "nat list" where
  "compact_types =
     [0x01, 0x02, 0x03, 0x04, 0x05, 0x06, 0x07, 0x08, 0x09, 0x0A, 0x0B, 0x0C, 0x0D, 0x0E,
      0x0F, 0x10, 0x11, 0x12]"

text \<open>
  The size check of \<open>_parse_compact_format\<close>; \<open>None\<close> is a failed check
  (\<open>pos += 1; continue\<close>).
\<close>

definition compact_size :: "byte list \<Rightarrow> nat \<Rightarrow> nat \<Rightarrow> nat \<Rightarrow> nat option" where
  "compact_size data text_start entry_type entry_size =
     (if entry_type = 0x10 then
        (let text_end = compact_text_end data text_start text_start;
             entry_size = text_end - text_start
         in if entry_size < 1 then None else Some entry_size)
      else if entry_size < 4 \<or> entry_size > 10000 then None
      else Some entry_size)"

text \<open>\<open>while pos < len(self.data) - 16 and self.data[pos] == 0x00: pos += 1\<close>\<close>

function compact_skip :: "byte list \<Rightarrow> nat \<Rightarrow> nat" where
  "compact_skip data pos =
     (if pos + 16 < length data \<and> byte_at data pos = Some 0
      then compact_skip data (pos + 1) else pos)"
  by pat_completeness auto
termination
  by (relation "measure (\<lambda>(data, pos). length data - pos)") auto

declare compact_skip.simps [simp del]

text \<open>
  The \<open>try\<close> block of \<open>_parse_compact_format\<close> in two parts. \<open>compact_entry\<close> is what
  follows the read of the size: the check of the size, the check that the string fits,
  and the entry.
\<close>

definition compact_entry ::
  "ucd \<Rightarrow> byte list \<Rightarrow> nat \<Rightarrow> nat \<Rightarrow> nat \<Rightarrow> nat \<Rightarrow> outcome" where
  "compact_entry U data pos entry_type entry_index entry_size =
     (case compact_size data (pos + 12) entry_type entry_size of
        None \<Rightarrow> Goto (pos + 1) None
      | Some entry_size \<Rightarrow>
          (let string_end = pos + 12 + entry_size in
           if string_end > length data then Break
           else
             (let string_data = py_slice data (pos + 12) string_end;
                  text = utf8_decode (rstrip_null string_data);
                  appended =
                    (if text \<noteq> [] \<and> is_valid_text U text
                     then Some \<lparr>r_index = int entry_index, r_type = entry_type,
                                r_text = text, r_size = entry_size, r_offset = Some pos\<rparr>
                     else None)
              in Goto (compact_skip data string_end) appended)))"

definition compact_try :: "ucd \<Rightarrow> byte list \<Rightarrow> nat \<Rightarrow> outcome option" where
  "compact_try U data pos =
     do {
       entry_type \<leftarrow> unpack_I (py_slice data pos (pos + 4));
       if entry_type \<notin> set compact_types then Some (Goto (pos + 1) None)
       else
         do {
           entry_index \<leftarrow> unpack_I (py_slice data (pos + 4) (pos + 8));
           if entry_index > 100000 then Some (Goto (pos + 1) None)
           else
             do {
               entry_size \<leftarrow> unpack_I (py_slice data (pos + 8) (pos + 12));
               Some (compact_entry U data pos entry_type entry_index entry_size)
             }
         }
     }"

definition compact_round :: "ucd \<Rightarrow> byte list \<Rightarrow> nat \<Rightarrow> outcome" where
  "compact_round U data pos =
     (case compact_try U data pos of None \<Rightarrow> Goto (pos + 1) None | Some r \<Rightarrow> r)"

function compact_scan :: "ucd \<Rightarrow> byte list \<Rightarrow> nat \<Rightarrow> raw_entry list" where
  "compact_scan U data pos =
     (if pos + 12 \<le> length data then
        (case compact_round U data pos of
           Break \<Rightarrow> []
         | Goto pos' appended \<Rightarrow>
             (case appended of None \<Rightarrow> [] | Some e \<Rightarrow> [e]) @ compact_scan U data pos')
      else [])"
  by pat_completeness auto
termination
proof (relation "measure (\<lambda>(U, data, pos). length data - pos)")
  show "wf (measure (\<lambda>(U, data, pos). length data - pos))" by simp
next
  fix U :: ucd and data :: "byte list" and pos pos' :: nat and appended :: "raw_entry option"
  assume guard: "pos + 12 \<le> length data"
    and round: "compact_round U data pos = Goto pos' appended"
  have skip: "p \<le> compact_skip data p" for p
  proof (induction data p rule: compact_skip.induct)
    case (1 data pos)
    show ?case
    proof (cases "pos + 16 < length data \<and> byte_at data pos = Some 0")
      case False
      then show ?thesis by (subst compact_skip.simps) auto
    next
      case True
      from "1.IH" [OF True] have "pos + 1 \<le> compact_skip data (pos + 1)" .
      with True show ?thesis by (subst compact_skip.simps) simp
    qed
  qed
  have entry: "pos < pos'" if "compact_entry U data pos t i s = Goto pos' appended" for t i s
  proof -
    from that
    have "pos' = pos + 1 \<or> (\<exists>n. pos' = compact_skip data (pos + 12 + n))"
      by (auto simp: compact_entry_def Let_def split: if_splits option.splits)
    then show ?thesis
    proof
      assume "pos' = pos + 1"
      then show ?thesis by simp
    next
      assume "\<exists>n. pos' = compact_skip data (pos + 12 + n)"
      then obtain n where "pos' = compact_skip data (pos + 12 + n)" ..
      with skip [of "pos + 12 + n"] show ?thesis by simp
    qed
  qed
  have "pos < pos'"
  proof (cases "compact_try U data pos")
    case None
    with round show ?thesis by (simp add: compact_round_def)
  next
    case (Some r)
    with round have t: "compact_try U data pos = Some (Goto pos' appended)"
      by (simp add: compact_round_def)
    then have "pos' = pos + 1
               \<or> (\<exists>t i s. compact_entry U data pos t i s = Goto pos' appended)"
      by (auto simp: compact_try_def bind_eq_Some_conv split: if_splits)
    with entry show ?thesis by auto
  qed
  with guard show "((U, data, pos'), (U, data, pos)) \<in> measure (\<lambda>(U, data, pos). length data - pos)"
    by simp
qed

declare compact_scan.simps [simp del]

text \<open>\<open>_parse_compact_format\<close>: the scan from the start of the buffer.\<close>

definition parse_compact_format :: "ucd \<Rightarrow> byte list \<Rightarrow> raw_entry list" where
  "parse_compact_format U data = compact_scan U data 0"

subsection \<open>The legacy strategy\<close>

text \<open>\<open>data.find(sub)\<close>: the first position at which \<open>sub\<close> occurs, or \<open>-1\<close>.\<close>

fun find_from :: "byte list \<Rightarrow> byte list \<Rightarrow> nat \<Rightarrow> int" where
  "find_from [] sub i = (if sub = [] then int i else - 1)"
| "find_from (b # bs) sub i =
     (if take (length sub) (b # bs) = sub then int i else find_from bs sub (Suc i))"

definition find_bytes :: "byte list \<Rightarrow> byte list \<Rightarrow> int" where
  "find_bytes data sub = find_from data sub 0"

text \<open>The literals \<open>b'GLOBAL_DATA'\<close> and \<open>b'CODE_START_'\<close>.\<close>

definition GLOBAL_DATA :: "byte list" where
  "GLOBAL_DATA = [0x47, 0x4C, 0x4F, 0x42, 0x41, 0x4C, 0x5F, 0x44, 0x41, 0x54, 0x41]"

definition CODE_START :: "byte list" where
  "CODE_START = [0x43, 0x4F, 0x44, 0x45, 0x5F, 0x53, 0x54, 0x41, 0x52, 0x54, 0x5F]"

text \<open>\<open>_find_code_start\<close> (the message it prints is left out).\<close>

definition find_code_start :: "byte list \<Rightarrow> nat" where
  "find_code_start data =
     (let offset = 0x2C;
          global_data_offset = find_bytes data GLOBAL_DATA;
          offset = (if global_data_offset > 0 then nat global_data_offset + 12 else offset);
          code_start_offset = find_bytes data CODE_START;
          offset = (if code_start_offset > 0 then nat code_start_offset + 12 else offset)
      in offset)"

text \<open>
  \<open>decode_utf8_string\<close>: the bytes from \<open>start\<close> up to the next zero byte or the end of
  the buffer, decoded, and their number plus one. The decoding does not raise, so the
  fallback of the source is not reached.
\<close>

definition decode_utf8_string :: "byte list \<Rightarrow> nat \<Rightarrow> ustr \<times> nat" where
  "decode_utf8_string data start =
     (let raw_bytes = takeWhile (\<lambda>b. b \<noteq> 0) (drop start data)
      in (utf8_decode raw_bytes, length raw_bytes + 1))"

text \<open>
  The loop of \<open>_parse_legacy_utf8\<close> from a position \<open>pos\<close> with the counter
  \<open>entry_count\<close>. Its entries have no offset. The decoded text holds no surrogates, so
  its encoding does not raise.
\<close>

function legacy_scan :: "byte list \<Rightarrow> nat \<Rightarrow> nat \<Rightarrow> raw_entry list" where
  "legacy_scan data pos entry_count =
     (if pos + 4 < length data then
        (case byte_at data pos of
           None \<Rightarrow> legacy_scan data (pos + 1) entry_count
         | Some byte_val \<Rightarrow>
             if byte_val = 0x00 \<or> byte_val = 0xFF then legacy_scan data (pos + 1) entry_count
             else if length (fst (decode_utf8_string data pos)) \<ge> 2 then
               \<lparr>r_index = int entry_count,
                r_type = (if is_speaker_name (fst (decode_utf8_string data pos))
                          then 0x02 else 0x04),
                r_text = fst (decode_utf8_string data pos),
                r_size = utf8_length (fst (decode_utf8_string data pos)),
                r_offset = None\<rparr>
               # legacy_scan data (pos + snd (decode_utf8_string data pos)) (entry_count + 1)
             else legacy_scan data (pos + 1) entry_count)
      else [])"
  by pat_completeness auto
termination
  by (relation "measure (\<lambda>(data, pos, entry_count). length data - pos)")
     (auto simp: decode_utf8_string_def Let_def)

declare legacy_scan.simps [simp del]

text \<open>\<open>_parse_legacy_utf8\<close>: the scan from the offset that \<open>_find_code_start\<close> gives.\<close>

definition parse_legacy_utf8 :: "byte list \<Rightarrow> raw_entry list" where
  "parse_legacy_utf8 data = legacy_scan data (find_code_start data) 0"

section \<open>DialogueAssembler\<close>

text \<open>
  \<open>combine_dialogue_entries\<close> walks the entries with a cursor \<open>i\<close>. Its inner loops only
  look at the entries behind the cursor, one after the other, so they are functions on
  the rest of the list, \<open>entries[i+1:]\<close>, that count the entries they pass. The loops that
  look back walk the entries before the cursor from the nearest to the farthest.
\<close>

definition speaker_types :: "nat list" where
  "speaker_types = [0x02, 0x03]"

definition speaker_run_types :: "nat list" where
  "speaker_run_types =
     [0x01, 0x03, 0x04, 0x05, 0x06, 0x08, 0x09, 0x0A, 0x0B, 0x0C, 0x0D, 0x0E, 0x0F, 0x10,
      0x11]"

definition type7_ahead_types :: "nat list" where
  "type7_ahead_types =
     [0x03, 0x04, 0x05, 0x06, 0x07, 0x08, 0x09, 0x0A, 0x0B, 0x0C, 0x0D, 0x0E]"

definition dialogue_types :: "nat list" where
  "dialogue_types =
     [0x04, 0x05, 0x06, 0x07, 0x08, 0x09, 0x0A, 0x0B, 0x0C, 0x0D, 0x0E, 0x0F, 0x10, 0x11]"

definition dialogue_ahead_types :: "nat list" where
  "dialogue_ahead_types =
     [0x01, 0x03, 0x04, 0x05, 0x06, 0x07, 0x08, 0x09, 0x0A, 0x0B, 0x0C, 0x0D, 0x0E, 0x0F,
      0x10, 0x11]"

text \<open>
  \<open>ends_with_punct\<close>: the text ends with \<open>.\<close>, \<open>!\<close>, \<open>?\<close>, the ideographic full stop
  U+3002, the full-width exclamation mark U+FF01 or the full-width solidus U+FF0F, and
  ends neither with \<open>...\<close> nor with three ideographic full stops.
\<close>

definition ends_with_punct :: "ustr \<Rightarrow> bool" where
  "ends_with_punct s =
     ((endswith s [0x2E] \<or> endswith s [0x21] \<or> endswith s [0x3F] \<or> endswith s [0x3002]
       \<or> endswith s [0xFF01] \<or> endswith s [0xFF0F])
      \<and> \<not> endswith s [0x2E, 0x2E, 0x2E]
      \<and> \<not> endswith s [0x3002, 0x3002, 0x3002])"

text \<open>\<open>' '.join(dialogue_parts).count('"') % 2 == 1\<close>\<close>

definition unclosed_quote :: "ustr list \<Rightarrow> bool" where
  "unclosed_quote dialogue_parts = odd (count_char (py_join [0x20] dialogue_parts) 0x22)"

text \<open>
  \<open>if combined_text and not combined_text[-1] in (' ', '\n'): combined_text += ' '\<close>,
  then \<open>combined_text += part\<close>.
\<close>

definition add_part :: "ustr \<Rightarrow> ustr \<Rightarrow> ustr" where
  "add_part combined_text part =
     (if combined_text \<noteq> [] \<and> last combined_text \<noteq> 0x20 \<and> last combined_text \<noteq> 0x0A
      then combined_text @ [0x20] @ part
      else combined_text @ part)"

text \<open>\<open>sum(1 for c in text if c.isalpha() and ord(c) < 128)\<close>\<close>

definition ascii_alpha_count :: "ucd \<Rightarrow> ustr \<Rightarrow> nat" where
  "ascii_alpha_count U s = length (filter (\<lambda>c. uc_isalpha U c \<and> c < 128) s)"

subsection \<open>The speaker run\<close>

text \<open>
  The look-ahead for the closing quote (inner \<open>while\<close> of the speaker branch). \<open>n\<close> counts
  the entries passed since the speaker entry.
\<close>

fun quote_closure :: "ucd \<Rightarrow> raw_entry list \<Rightarrow> nat \<Rightarrow> ustr list \<Rightarrow> nat \<times> ustr list" where
  "quote_closure U [] n dialogue_parts = (n, dialogue_parts)"
| "quote_closure U (e # rest) n dialogue_parts =
     (if r_type e \<in> set [0x0C, 0x0D]
      then quote_closure U rest (n + 1) (dialogue_parts @ [r_text e])
      else if r_type e \<in> set [0x04, 0x06, 0x03, 0x0F] then
        (if count_char (r_text e) 0x22 > 0 then
           (if \<not> unclosed_quote (dialogue_parts @ [r_text e])
            then (n + 1, dialogue_parts @ [r_text e])
            else quote_closure U rest (n + 1) (dialogue_parts @ [r_text e]))
         else if r_text e \<noteq> [] \<and> \<not> uc_isupper U (hd (r_text e))
           then quote_closure U rest (n + 1) (dialogue_parts @ [r_text e])
         else (n, dialogue_parts))
      else (n, dialogue_parts))"

text \<open>
  The test on a capital letter after sentence punctuation (\<open>if dialogue_parts and
  next_text: ...\<close>): true where the source leaves the loop.
\<close>

definition capital_break :: "ucd \<Rightarrow> ustr list \<Rightarrow> ustr \<Rightarrow> bool" where
  "capital_break U dialogue_parts next_text =
     (dialogue_parts \<noteq> [] \<and> next_text \<noteq> []
      \<and> ends_with_punct (rstrip (last dialogue_parts))
      \<and> \<not> unclosed_quote dialogue_parts
      \<and> uc_isupper U (hd next_text)
      \<and> \<not> startswith next_text (ascii ''I'' @ [0x27] @ ascii ''m'')
      \<and> \<not> startswith next_text (ascii ''I ''))"

text \<open>
  The test on mixed languages against the parts collected so far (\<open>if dialogue_parts:
  ...\<close>): true where the source leaves the loop.
\<close>

definition language_break :: "ucd \<Rightarrow> ustr list \<Rightarrow> ustr \<Rightarrow> bool" where
  "language_break U dialogue_parts next_text =
     (dialogue_parts \<noteq> [] \<and>
      (let combined_so_far = py_join [0x20] dialogue_parts;
           combined_has_japanese = has_japanese combined_so_far;
           combined_has_english = (alpha_count U combined_so_far > 2);
           next_has_japanese = has_japanese next_text;
           next_has_english = (alpha_count U next_text > 2)
       in (combined_has_japanese \<and> next_has_english \<and> \<not> next_has_japanese)
          \<or> (combined_has_english \<and> next_has_japanese \<and> \<not> next_has_english)))"

text \<open>
  The loop over the entries behind a speaker name. It gives the number of entries passed
  and the parts collected.
\<close>

fun speaker_run :: "ucd \<Rightarrow> raw_entry list \<Rightarrow> nat \<Rightarrow> ustr list \<Rightarrow> nat \<times> ustr list" where
  "speaker_run U [] n dialogue_parts = (n, dialogue_parts)"
| "speaker_run U (e # rest) n dialogue_parts =
     (if r_type e \<notin> set speaker_run_types then (n, dialogue_parts)
      else if is_name_indicator U (r_text e) then (n, dialogue_parts)
      else if startswith (strip (r_text e)) [0x22, 0x2D, 0x2D] then (n, dialogue_parts)
      else if ends_with_punct (rstrip (r_text e)) then
        (if unclosed_quote (dialogue_parts @ [r_text e])
         then quote_closure U rest (n + 1) (dialogue_parts @ [r_text e])
         else (n + 1, dialogue_parts @ [r_text e]))
      else if is_bytecode U (r_text e) then speaker_run U rest (n + 1) dialogue_parts
      else if has_japanese (r_text e) \<and> alpha_count U (r_text e) > 2 then (n, dialogue_parts)
      else if language_break U dialogue_parts (r_text e) then (n, dialogue_parts)
      else if capital_break U dialogue_parts (r_text e) then (n, dialogue_parts)
      else speaker_run U rest (n + 1) (dialogue_parts @ [r_text e]))"

text \<open>
  \<open>combined_text = dialogue_parts[0]\<close>, then every further part is added with a space
  between.
\<close>

definition join_parts :: "ustr list \<Rightarrow> ustr" where
  "join_parts dialogue_parts = foldl add_part (hd dialogue_parts) (tl dialogue_parts)"

subsection \<open>Type 0x07\<close>

text \<open>
  The search backwards for a speaker: the entries before the cursor, nearest first.
  \<open>None\<close> is \<open>has_speaker = False\<close>.
\<close>

fun speaker_before :: "raw_entry list \<Rightarrow> ustr option" where
  "speaker_before [] = None"
| "speaker_before (prev_entry # earlier) =
     (if r_type prev_entry \<in> set [0x02, 0x03] then
        (if is_speaker_name (r_text prev_entry) then Some (r_text prev_entry) else None)
      else if r_type prev_entry \<in> set [0x04, 0x05, 0x06, 0x07, 0x0D, 0x0E, 0x12] then None
      else speaker_before earlier)"

text \<open>
  The look-ahead of a type \<open>0x07\<close> entry. It gives the number of entries whose text was
  added (the cursor moves by one for each of them, not for the skipped ones) and the
  combined text.
\<close>

fun type7_ahead :: "ucd \<Rightarrow> int \<Rightarrow> raw_entry list \<Rightarrow> nat \<Rightarrow> ustr \<Rightarrow> nat \<times> ustr" where
  "type7_ahead U current_index [] n combined_text = (n, combined_text)"
| "type7_ahead U current_index (e # rest) n combined_text =
     (if r_type e \<notin> set type7_ahead_types then (n, combined_text)
      else if r_type e = 0x07 \<and> r_index e \<noteq> current_index then (n, combined_text)
      else if is_name_indicator U (r_text e) then (n, combined_text)
      else if is_bytecode U (r_text e) then type7_ahead U current_index rest n combined_text
      else type7_ahead U current_index rest (n + 1) (add_part combined_text (r_text e)))"

subsection \<open>The dialogue types\<close>

text \<open>
  The search backwards for \<open>#Name[..]\<close> indicators: the entries before the cursor,
  nearest first. Every indicator met replaces the one found before; an entry of a
  dialogue type ends the search.
\<close>

fun name_indicator_before :: "ucd \<Rightarrow> raw_entry list \<Rightarrow> ustr option \<Rightarrow> ustr option" where
  "name_indicator_before U [] name_indicator = name_indicator"
| "name_indicator_before U (prev_entry # earlier) name_indicator =
     (if is_name_indicator U (r_text prev_entry)
      then name_indicator_before U earlier (Some (r_text prev_entry))
      else if r_type prev_entry \<in> set dialogue_types then name_indicator
      else name_indicator_before U earlier name_indicator)"

text \<open>
  The look-ahead of a dialogue entry. It gives the number of entries passed (skipped or
  added) and the combined text.
\<close>

fun dialogue_ahead :: "ucd \<Rightarrow> raw_entry list \<Rightarrow> nat \<Rightarrow> ustr \<Rightarrow> nat \<times> ustr" where
  "dialogue_ahead U [] n combined_text = (n, combined_text)"
| "dialogue_ahead U (e # rest) n combined_text =
     (if r_type e \<notin> set dialogue_ahead_types then (n, combined_text)
      else if is_name_indicator U (r_text e) then (n, combined_text)
      else if r_type e \<notin> set [0x03, 0x0A] \<and> is_bytecode U (r_text e)
        then dialogue_ahead U rest (n + 1) combined_text
      else if has_japanese combined_text \<and> ascii_alpha_count U (r_text e) > 2
              \<and> \<not> has_japanese (r_text e)
        then (n, combined_text)
      else if ascii_alpha_count U combined_text > 2 \<and> has_japanese (r_text e)
              \<and> \<not> ascii_alpha_count U (r_text e) > 2
        then (n, combined_text)
      else if should_combine_entries U combined_text (r_text e)
        then dialogue_ahead U rest (n + 1) (add_part combined_text (r_text e))
      else (n, combined_text))"

subsection \<open>The main loop\<close>

text \<open>
  One round of the main loop at the cursor \<open>i < len(entries)\<close>: the number of entries
  behind \<open>entries[i]\<close> over which the cursor moves as well, and the entry appended to
  \<open>combined\<close>, if any.
\<close>

definition meaningful :: "ustr \<Rightarrow> bool" where
  "meaningful current_text =
     (let text_len = length (strip current_text);
          has_japanese = has_japanese current_text
      in text_len \<ge> 3 \<or> (text_len \<ge> 2 \<and> has_japanese))"

definition assemble_round :: "ucd \<Rightarrow> raw_entry list \<Rightarrow> nat \<Rightarrow> nat \<times> utterance option" where
  "assemble_round U entries i =
     (let current = entries ! i;
          current_text = r_text current;
          current_type = r_type current
      in
        if current_type \<in> set speaker_types then
          (if is_speaker_name current_text then
             (case speaker_run U (drop (i + 1) entries) 0 [] of
                (n, dialogue_parts) \<Rightarrow>
                  (n, if dialogue_parts \<noteq> []
                      then Some (mk_utterance (r_index current) (join_parts dialogue_parts)
                                   current_text 0x04)
                      else None))
           else if length (strip current_text) \<ge> 2 \<and> has_japanese current_text
                   \<and> \<not> is_bytecode U current_text
             then (0, Some (mk_utterance (r_index current) current_text [] current_type))
           else if is_name_indicator U current_text then (0, None)
           else if \<not> is_bytecode U current_text
             then (0, Some (mk_utterance (r_index current) current_text [] current_type))
           else (0, None))
        else if current_type = 0x12 then
          (if is_bytecode U current_text then (0, None)
           else (0, Some (mk_utterance (r_index current) current_text [] 0x12)))
        else if current_type = 0x01 then
          (if py_lower current_text \<notin> set ENGLISH_CHOICE_WORDS then (0, None)
           else (0, Some (mk_utterance (r_index current) current_text [] 0x02)))
        else if current_type = 0x07 then
          (if is_bytecode U current_text then (0, None)
           else
             (case type7_ahead U (r_index current) (drop (i + 1) entries) 0 current_text of
                (n, combined_text) \<Rightarrow>
                  (n, Some (mk_utterance (r_index current) combined_text
                              (case speaker_before (rev (take i entries)) of
                                 None \<Rightarrow> [] | Some speaker_name \<Rightarrow> speaker_name)
                              0x07))))
        else if current_type \<in> set dialogue_types then
          (let name_indicator = name_indicator_before U (rev (take i entries)) None in
           if is_bytecode U current_text then (0, None)
           else if \<not> meaningful current_text then (0, None)
           else
             (case dialogue_ahead U (drop (i + 1) entries) 0 current_text of
                (n, combined_text) \<Rightarrow>
                  (let combined_text =
                         (case name_indicator of
                            None \<Rightarrow> combined_text
                          | Some indicator \<Rightarrow> indicator @ [0x0A] @ combined_text)
                   in (n, if has_japanese combined_text \<or> alpha_count U combined_text > 3
                          then Some (mk_utterance (r_index current) combined_text
                                       (case name_indicator of
                                          None \<Rightarrow> [] | Some indicator \<Rightarrow> indicator)
                                       current_type)
                          else None))))
        else if is_bytecode U current_text then (0, None)
        else if meaningful current_text
          then (0, Some (mk_utterance (r_index current) current_text [] current_type))
        else (0, None))"

text \<open>The list \<open>combined\<close> when the cursor has gone from \<open>i\<close> to the end of the entries.\<close>

function assemble :: "ucd \<Rightarrow> raw_entry list \<Rightarrow> nat \<Rightarrow> utterance list" where
  "assemble U entries i =
     (if i < length entries then
        (case assemble_round U entries i of
           (n, appended) \<Rightarrow>
             (case appended of None \<Rightarrow> [] | Some u \<Rightarrow> [u]) @ assemble U entries (i + 1 + n))
      else [])"
  by pat_completeness auto
termination
  by (relation "measure (\<lambda>(U, entries, i). length entries - i)") auto

declare assemble.simps [simp del]

text \<open>\<open>combine_dialogue_entries\<close>: the main loop, then the ChoiceGrouper.\<close>

definition combine_dialogue_entries :: "ucd \<Rightarrow> raw_entry list \<Rightarrow> utterance list" where
  "combine_dialogue_entries U entries = group_related_choices U (assemble U entries 0)"

section \<open>Properties of the format detector\<close>

lemma unpack_I_slice4:
  assumes "4 \<le> length data"
  shows "unpack_I (py_slice data 0 4) =
           Some (unat (data ! 0) + 256 * unat (data ! 1) + 65536 * unat (data ! 2)
                 + 16777216 * unat (data ! 3))"
proof -
  from assms obtain b0 r0 where d0: "data = b0 # r0" by (cases data) auto
  with assms obtain b1 r1 where d1: "r0 = b1 # r1" by (cases r0) auto
  with d0 assms obtain b2 r2 where d2: "r1 = b2 # r2" by (cases r1) auto
  with d0 d1 assms obtain b3 r3 where d3: "r2 = b3 # r3" by (cases r2) auto
  show ?thesis by (simp add: d0 d1 d2 d3 py_slice_def unpack_I_def)
qed

text \<open>
  C2. For every buffer the detector returns \<open>Full\<close> exactly when the buffer begins with
  the six magic bytes; otherwise \<open>Dialogue\<close> exactly when the buffer has at least eight
  bytes and its first four bytes, read little-endian, are below 10000; and \<open>Unknown\<close> in
  every other case. It never raises.
\<close>

theorem detect_format_classification:
  "detect_format data =
     Inr (if take 6 data = STCM2L_magic then Full
          else if 8 \<le> length data \<and>
                  unat (data ! 0) + 256 * unat (data ! 1) + 65536 * unat (data ! 2)
                    + 16777216 * unat (data ! 3) < 10000
               then Dialogue
          else Unknown)"
proof (cases "data = []")
  case True
  then show ?thesis by (simp add: detect_format_def STCM2L_magic_def)
next
  case False
  show ?thesis
  proof (cases "8 \<le> length data")
    case True
    then have "4 \<le> length data" by simp
    from unpack_I_slice4 [OF this] False True show ?thesis
      by (simp add: detect_format_def py_slice_def)
  next
    case short: False
    with False show ?thesis by (simp add: detect_format_def py_slice_def)
  qed
qed

theorem detect_format_classification_witness:
  "detect_format [0x53, 0x54, 0x43, 0x4D, 0x32, 0x4C, 0x00] = Inr Full
   \<and> detect_format [0x03, 0x00, 0x00, 0x00, 0x01, 0x00, 0x00, 0x00] = Inr Dialogue
   \<and> detect_format [0x10, 0x27, 0x00, 0x00, 0x01, 0x00, 0x00, 0x00] = Inr Unknown
   \<and> detect_format [0x03, 0x00, 0x00, 0x00] = Inr Unknown"
  using detect_format_classification [of "[0x53, 0x54, 0x43, 0x4D, 0x32, 0x4C, 0x00]"]
        detect_format_classification [of "[0x03, 0x00, 0x00, 0x00, 0x01, 0x00, 0x00, 0x00]"]
        detect_format_classification [of "[0x10, 0x27, 0x00, 0x00, 0x01, 0x00, 0x00, 0x00]"]
        detect_format_classification [of "[0x03, 0x00, 0x00, 0x00]"]
  by (simp add: STCM2L_magic_def)

section \<open>Properties of the merger\<close>

lemma merge_entries_order:
  "sorted_wrt
     (\<lambda>a b. r_index a < r_index b
            \<or> (r_index a = r_index b
               \<and> (case r_offset a of None \<Rightarrow> 0 | Some k \<Rightarrow> k)
                   \<le> (case r_offset b of None \<Rightarrow> 0 | Some k \<Rightarrow> k)))
     (merge_entries padded_entries compact_entries)"
proof -
  have "sorted (map merge_key (merge_entries padded_entries compact_entries))"
    by (simp add: merge_entries_def Let_def)
  then have "sorted_wrt (\<lambda>a b. merge_key a \<le> merge_key b)
               (merge_entries padded_entries compact_entries)"
    by (simp only: sorted_map)
  then show ?thesis
    by (rule sorted_wrt_mono_rel [rotated])
       (auto simp: merge_key_def get_offset_def less_eq_prod_def)
qed

text \<open>
  C1. The merged list holds every compact entry and exactly those padded entries whose
  index no compact entry has (as multisets, so nothing is duplicated or lost): where both
  strategies produced an entry at one index the compact one is there and the padded one
  is not. The list is in the order of \<open>(index, offset)\<close>: of two entries the earlier one has
  the smaller index or, at equal indices, an offset that is not greater, where an entry
  without an offset counts as offset 0.
\<close>

theorem merge_entries_prefers_compact:
  "mset (merge_entries padded_entries compact_entries) =
     mset compact_entries +
     mset (filter (\<lambda>e. r_index e \<notin> r_index ` set compact_entries) padded_entries)
   \<and> sorted_wrt
       (\<lambda>a b. r_index a < r_index b
              \<or> (r_index a = r_index b
                 \<and> (case r_offset a of None \<Rightarrow> 0 | Some k \<Rightarrow> k)
                     \<le> (case r_offset b of None \<Rightarrow> 0 | Some k \<Rightarrow> k)))
       (merge_entries padded_entries compact_entries)
   \<and> set compact_entries \<subseteq> set (merge_entries padded_entries compact_entries)
   \<and> (\<forall>p \<in> set padded_entries.
        if r_index p \<in> r_index ` set compact_entries
        then p \<in> set (merge_entries padded_entries compact_entries) \<longrightarrow> p \<in> set compact_entries
        else p \<in> set (merge_entries padded_entries compact_entries))"
proof -
  have "mset (merge_entries padded_entries compact_entries) =
     mset compact_entries +
     mset (filter (\<lambda>e. r_index e \<notin> r_index ` set compact_entries) padded_entries)"
    by (simp add: merge_entries_def Let_def)
  moreover have "set compact_entries \<subseteq> set (merge_entries padded_entries compact_entries)"
    by (auto simp: merge_entries_def Let_def)
  moreover have "\<forall>p \<in> set padded_entries.
        if r_index p \<in> r_index ` set compact_entries
        then p \<in> set (merge_entries padded_entries compact_entries) \<longrightarrow> p \<in> set compact_entries
        else p \<in> set (merge_entries padded_entries compact_entries)"
    by (auto simp: merge_entries_def Let_def)
  ultimately show ?thesis using merge_entries_order by blast
qed

text \<open>
  An input on which the sort has work to do: the compact entries with index 5 come with
  offsets 40 and 4, in this order, and the padded entries with indices 5, 2 and 7; the
  padded entry with index 5 gives way, the one with index 2 moves to the front, and the
  two compact entries change places.
\<close>

theorem merge_entries_prefers_compact_witness:
  "merge_entries
     [\<lparr>r_index = 5, r_type = 4, r_text = [72, 105], r_size = 2, r_offset = Some 0\<rparr>,
      \<lparr>r_index = 2, r_type = 4, r_text = [72, 101, 121], r_size = 3, r_offset = Some 30\<rparr>,
      \<lparr>r_index = 7, r_type = 4, r_text = [66, 121, 101], r_size = 3, r_offset = Some 60\<rparr>]
     [\<lparr>r_index = 5, r_type = 2, r_text = [72, 111], r_size = 2, r_offset = Some 40\<rparr>,
      \<lparr>r_index = 5, r_type = 4, r_text = [72, 97], r_size = 2, r_offset = Some 4\<rparr>] =
     [\<lparr>r_index = 2, r_type = 4, r_text = [72, 101, 121], r_size = 3, r_offset = Some 30\<rparr>,
      \<lparr>r_index = 5, r_type = 4, r_text = [72, 97], r_size = 2, r_offset = Some 4\<rparr>,
      \<lparr>r_index = 5, r_type = 2, r_text = [72, 111], r_size = 2, r_offset = Some 40\<rparr>,
      \<lparr>r_index = 7, r_type = 4, r_text = [66, 121, 101], r_size = 3, r_offset = Some 60\<rparr>]
   \<and> \<lparr>r_index = 5, r_type = 4, r_text = [72, 105], r_size = 2, r_offset = Some 0\<rparr> \<notin>
     set (merge_entries
       [\<lparr>r_index = 5, r_type = 4, r_text = [72, 105], r_size = 2, r_offset = Some 0\<rparr>,
        \<lparr>r_index = 2, r_type = 4, r_text = [72, 101, 121], r_size = 3, r_offset = Some 30\<rparr>,
        \<lparr>r_index = 7, r_type = 4, r_text = [66, 121, 101], r_size = 3, r_offset = Some 60\<rparr>]
       [\<lparr>r_index = 5, r_type = 2, r_text = [72, 111], r_size = 2, r_offset = Some 40\<rparr>,
        \<lparr>r_index = 5, r_type = 4, r_text = [72, 97], r_size = 2, r_offset = Some 4\<rparr>])"
proof -
  have r: "merge_entries
     [\<lparr>r_index = 5, r_type = 4, r_text = [72, 105], r_size = 2, r_offset = Some 0\<rparr>,
      \<lparr>r_index = 2, r_type = 4, r_text = [72, 101, 121], r_size = 3, r_offset = Some 30\<rparr>,
      \<lparr>r_index = 7, r_type = 4, r_text = [66, 121, 101], r_size = 3, r_offset = Some 60\<rparr>]
     [\<lparr>r_index = 5, r_type = 2, r_text = [72, 111], r_size = 2, r_offset = Some 40\<rparr>,
      \<lparr>r_index = 5, r_type = 4, r_text = [72, 97], r_size = 2, r_offset = Some 4\<rparr>] =
     [\<lparr>r_index = 2, r_type = 4, r_text = [72, 101, 121], r_size = 3, r_offset = Some 30\<rparr>,
      \<lparr>r_index = 5, r_type = 4, r_text = [72, 97], r_size = 2, r_offset = Some 4\<rparr>,
      \<lparr>r_index = 5, r_type = 2, r_text = [72, 111], r_size = 2, r_offset = Some 40\<rparr>,
      \<lparr>r_index = 7, r_type = 4, r_text = [66, 121, 101], r_size = 3, r_offset = Some 60\<rparr>]"
    by (simp add: merge_entries_def merge_key_def get_offset_def Let_def less_eq_prod_def)
  from merge_entries_prefers_compact
    [of "[\<lparr>r_index = 5, r_type = 4, r_text = [72, 105], r_size = 2, r_offset = Some 0\<rparr>,
      \<lparr>r_index = 2, r_type = 4, r_text = [72, 101, 121], r_size = 3, r_offset = Some 30\<rparr>,
      \<lparr>r_index = 7, r_type = 4, r_text = [66, 121, 101], r_size = 3, r_offset = Some 60\<rparr>]"
     "[\<lparr>r_index = 5, r_type = 2, r_text = [72, 111], r_size = 2, r_offset = Some 40\<rparr>,
      \<lparr>r_index = 5, r_type = 4, r_text = [72, 97], r_size = 2, r_offset = Some 4\<rparr>]"]
  have "\<lparr>r_index = 5, r_type = 4, r_text = [72, 105], r_size = 2, r_offset = Some 0\<rparr> \<notin>
     set (merge_entries
       [\<lparr>r_index = 5, r_type = 4, r_text = [72, 105], r_size = 2, r_offset = Some 0\<rparr>,
        \<lparr>r_index = 2, r_type = 4, r_text = [72, 101, 121], r_size = 3, r_offset = Some 30\<rparr>,
        \<lparr>r_index = 7, r_type = 4, r_text = [66, 121, 101], r_size = 3, r_offset = Some 60\<rparr>]
       [\<lparr>r_index = 5, r_type = 2, r_text = [72, 111], r_size = 2, r_offset = Some 40\<rparr>,
        \<lparr>r_index = 5, r_type = 4, r_text = [72, 97], r_size = 2, r_offset = Some 4\<rparr>])"
    by simp
  with r show ?thesis by blast
qed

section \<open>Evaluation rules\<close>

text \<open>The defining equations by which the functions are evaluated on concrete inputs.\<close>

lemmas str_defs = ascii_def isspace_def lstrip_with_def rstrip_with_def strip_def rstrip_def
  strip_nul_def py_split_def startswith_def endswith_def count_char_def lower_char_def
  py_lower_def has_japanese_def

lemmas re_defs = RPlus_def ROpt_def sre_lower_def sre_fixes_def chr_match_def cls_match_def
  is_word_char_def word_boundary_def re_match_def re_search_def

lemmas cls_defs = ENGLISH_CHOICE_WORDS_def cls_09_def cls_az_def cls_AZ_def cls_ident_def
  BYTECODE_PATTERNS_def SPEAKER_NAMES_def bytecode_word_def is_bytecode_def
  is_name_indicator_def is_speaker_name_def

lemmas choice_defs = is_choice_candidate_def vowels_only_def punctuation_only_def
  closing_punctuation_def

lemmas asm_defs = speaker_types_def speaker_run_types_def type7_ahead_types_def
  dialogue_types_def dialogue_ahead_types_def ends_with_punct_def unclosed_quote_def
  add_part_def ascii_alpha_count_def capital_break_def language_break_def join_parts_def
  meaningful_def

section \<open>Properties of the admission filter\<close>

text \<open>
  C3. A text that contains the replacement character U+FFFD is rejected, whatever else
  it holds: the test comes before the speaker names and the choice words are let
  through. This holds for every content of the Unicode tables.
\<close>

theorem is_valid_text_rejects_replacement_character:
  "0xFFFD \<in> set t \<Longrightarrow> \<not> is_valid_text U t"
  by (simp add: is_valid_text_def)

theorem is_valid_text_rejects_replacement_character_witness:
  "0xFFFD \<in> set [80, 101, 97, 114, 108, 0xFFFD]
   \<and> \<not> is_valid_text basic_ucd [80, 101, 97, 114, 108, 0xFFFD]
   \<and> is_valid_text basic_ucd [80, 101, 97, 114, 108]"
proof -
  have h: "(0xFFFD::nat) \<in> set [80, 101, 97, 114, 108, 0xFFFD]" by simp
  have v: "is_valid_text basic_ucd [80, 101, 97, 114, 108]"
    by (simp add: is_valid_text_def is_speaker_name_def SPEAKER_NAMES_def strip_def
        strip_nul_def rstrip_with_def lstrip_with_def isspace_def py_lower_def lower_char_def
        ascii_def startswith_def count_char_def Let_def)
  from h is_valid_text_rejects_replacement_character [OF h, of basic_ucd] v
  show ?thesis by simp
qed

section \<open>Properties of the bytecode classifier\<close>

subsection \<open>A literal word is matched at the start of the text\<close>

lemma ends_RWord:
  "i \<le> length s \<Longrightarrow>
   ends U ic (RWord w) s i =
     (if i + length w \<le> length s \<and> (\<forall>k < length w. chr_match ic (w ! k) (s ! (i + k)))
      then [i + length w] else [])"
proof (induction w arbitrary: i rule: RWord.induct)
  case 1
  then show ?case by simp
next
  case (2 c)
  then show ?case by (simp add: Suc_le_eq)
next
  case (3 c d cs)
  show ?case
  proof (cases "i < length s \<and> chr_match ic c (s ! i)")
    case False
    then have "ends U ic (RWord (c # d # cs)) s i = []" by auto
    moreover from False
    have "\<not> (i + length (c # d # cs) \<le> length s
             \<and> (\<forall>k < length (c # d # cs). chr_match ic ((c # d # cs) ! k) (s ! (i + k))))"
      by (auto simp: All_less_Suc2)
    ultimately show ?thesis by (simp only: if_False)
  next
    case True
    then have le: "Suc i \<le> length s" by simp
    from True
    have "ends U ic (RWord (c # d # cs)) s i = remdups (ends U ic (RWord (d # cs)) s (Suc i))"
      by simp
    also have "\<dots> = (if Suc i + length (d # cs) \<le> length s
                        \<and> (\<forall>k < length (d # cs). chr_match ic ((d # cs) ! k) (s ! (Suc i + k)))
                      then [Suc i + length (d # cs)] else [])"
      by (simp only: "3.IH" [OF le]) simp
    also have "\<dots> = (if i + length (c # d # cs) \<le> length s
             \<and> (\<forall>k < length (c # d # cs). chr_match ic ((c # d # cs) ! k) (s ! (i + k)))
           then [i + length (c # d # cs)] else [])"
      using True by (simp add: All_less_Suc2 [where n = "Suc (length cs)"])
    finally show ?thesis .
  qed
qed

lemma chr_match_same_letter:
  assumes "97 \<le> c" and "c \<le> 122"
  shows "chr_match True c x \<longleftrightarrow> same_letter c x"
  using assms
  by (auto simp: chr_match_def sre_lower_def sre_fixes_def same_letter_def Let_def
      split: if_splits)

lemma re_match_RWord:
  assumes "\<forall>c \<in> set w. 97 \<le> c \<and> c \<le> 122"
  shows "re_match U True (RWord w) s \<longleftrightarrow> begins_with_fold s w"
proof -
  have "re_match U True (RWord w) s \<longleftrightarrow>
        length w \<le> length s \<and> (\<forall>k < length w. chr_match True (w ! k) (s ! k))"
    by (simp add: re_match_def ends_RWord)
  also have "\<dots> \<longleftrightarrow> length w \<le> length s \<and> (\<forall>k < length w. same_letter (w ! k) (s ! k))"
    using assms by (auto simp: chr_match_same_letter)
  also have "\<dots> \<longleftrightarrow> begins_with_fold s w"
    by (auto simp: begins_with_fold_def list_all2_conv_all_nth)
  finally show ?thesis .
qed

lemma begins_with_ci_fold:
  "begins_with_ci s w \<Longrightarrow> begins_with_fold s w"
proof -
  assume a: "begins_with_ci s w"
  then have len: "length w \<le> length s" and eq: "map ascii_lower (take (length w) s) = w"
    by (simp_all add: begins_with_ci_def)
  have "same_letter (w ! k) (s ! k)" if "k < length w" for k
  proof -
    from that len have "map ascii_lower (take (length w) s) ! k = ascii_lower (s ! k)" by simp
    with eq have "ascii_lower (s ! k) = w ! k" by simp
    then show ?thesis by (auto simp: ascii_lower_def same_letter_def split: if_splits)
  qed
  with len show ?thesis by (simp add: begins_with_fold_def list_all2_conv_all_nth)
qed

lemma control_flow_patterns:
  "re_match U True (RWord (ascii ''switch'')) s \<longleftrightarrow> begins_with_fold s (ascii ''switch'')"
  "re_match U True (RWord (ascii ''case'')) s \<longleftrightarrow> begins_with_fold s (ascii ''case'')"
  "re_match U True (RWord (ascii ''default'')) s \<longleftrightarrow> begins_with_fold s (ascii ''default'')"
  by (rule re_match_RWord, simp add: ascii_def)+

lemma is_bytecode_characterisation:
  "is_bytecode U t \<longleftrightarrow>
     py_lower (strip t) \<notin> set ENGLISH_CHOICE_WORDS
     \<and> (begins_with_fold (strip t) (ascii ''switch'')
        \<or> begins_with_fold (strip t) (ascii ''case'')
        \<or> begins_with_fold (strip t) (ascii ''default'')
        \<or> list_ex (\<lambda>pattern. re_match U True pattern (strip t)) (drop 3 BYTECODE_PATTERNS)
        \<or> (length (py_split (strip t)) > 5
           \<and> 20 * length (filter (bytecode_word U) (py_split (strip t)))
               > 17 * length (py_split (strip t))))"
proof -
  have p: "BYTECODE_PATTERNS =
             RWord (ascii ''switch'') # RWord (ascii ''case'') # RWord (ascii ''default'')
             # drop 3 BYTECODE_PATTERNS"
    by (simp add: BYTECODE_PATTERNS_def)
  have "list_ex (\<lambda>pattern. re_match U True pattern (strip t)) BYTECODE_PATTERNS \<longleftrightarrow>
        begins_with_fold (strip t) (ascii ''switch'')
        \<or> begins_with_fold (strip t) (ascii ''case'')
        \<or> begins_with_fold (strip t) (ascii ''default'')
        \<or> list_ex (\<lambda>pattern. re_match U True pattern (strip t)) (drop 3 BYTECODE_PATTERNS)"
    by (subst p) (simp only: list_ex_Cons_iff control_flow_patterns)
  then show ?thesis
    by (auto simp: is_bytecode_def Let_def)
qed

subsection \<open>What the assembler does with a text classified as bytecode\<close>

lemma assemble_step:
  "i < length entries \<Longrightarrow> assemble_round U entries i = (n, appended) \<Longrightarrow>
   assemble U entries i =
     (case appended of None \<Rightarrow> [] | Some u \<Rightarrow> [u]) @ assemble U entries (i + 1 + n)"
  by (subst assemble.simps) simp

lemma assemble_end:
  "length entries \<le> i \<Longrightarrow> assemble U entries i = []"
  by (subst assemble.simps) simp

lemma speaker_round:
  assumes "r_type (entries ! i) \<in> set speaker_types"
    and "is_speaker_name (r_text (entries ! i))"
    and "speaker_run U (drop (i + 1) entries) 0 [] = (n, dialogue_parts)"
  shows "assemble_round U entries i =
           (n, if dialogue_parts \<noteq> []
               then Some (mk_utterance (r_index (entries ! i)) (join_parts dialogue_parts)
                            (r_text (entries ! i)) 0x04)
               else None)"
  using assms by (simp add: assemble_round_def Let_def)

lemma fragment_fields:
  "r_index (fragment i tp txt) = i" "r_type (fragment i tp txt) = tp"
  "r_text (fragment i tp txt) = txt"
  by (simp_all add: fragment_def)

lemma bytecode_entry_dropped:
  assumes "is_bytecode U (r_text (entries ! i))"
    and "r_type (entries ! i) \<noteq> 0x01"
    and "\<not> (r_type (entries ! i) \<in> set speaker_types \<and> is_speaker_name (r_text (entries ! i)))"
  shows "assemble_round U entries i = (0, None)"
  using assms by (auto simp: assemble_round_def Let_def)

lemma cases_text_is_bytecode: "is_bytecode U (ascii ''Cases like this are rare.'')"
  by (simp add: str_defs cls_defs re_defs Let_def)

lemma in_this_case_no_bytecode: "\<not> is_bytecode basic_ucd (ascii ''In this case it is rare.'')"
  by (simp add: str_defs cls_defs re_defs basic_ucd_def basic_isalpha_def basic_isdecimal_def
      Let_def)

lemma pearl_is_speaker: "is_speaker_name (ascii ''Pearl'')"
  by (simp add: str_defs cls_defs)

lemma cases_text_in_speaker_run:
  "speaker_run U [fragment j 0x04 (ascii ''Cases like this are rare.'')] 0 [] =
     (1, [ascii ''Cases like this are rare.''])"
  by (simp add: fragment_def asm_defs str_defs is_name_indicator_def re_defs cls_09_def
      Let_def)

lemma cases_text_no_candidate:
  "\<not> is_choice_candidate U (mk_utterance i (ascii ''Cases like this are rare.'') sp tp)"
  by (simp add: is_choice_candidate_def mk_utterance_def str_defs Let_def)

text \<open>
  C10 does not hold as it is worded: a text classified as bytecode is not always
  dropped. Behind a speaker entry the assembler appends a fragment that ends with
  terminal punctuation before it asks \<open>is_bytecode\<close>, so \<open>Cases like this are rare.\<close>
  after the speaker entry \<open>Pearl\<close> becomes a line of that speaker.
\<close>

theorem bytecode_text_kept_in_speaker_run:
  "is_bytecode basic_ucd (ascii ''Cases like this are rare.'')
   \<and> combine_dialogue_entries basic_ucd
       [fragment 1 0x02 (ascii ''Pearl''),
        fragment 2 0x04 (ascii ''Cases like this are rare.'')] =
     [mk_utterance 1 (ascii ''Cases like this are rare.'') (ascii ''Pearl'') 0x04]"
proof -
  let ?es = "[fragment 1 0x02 (ascii ''Pearl''),
              fragment 2 0x04 (ascii ''Cases like this are rare.'')]"
  let ?u = "mk_utterance 1 (ascii ''Cases like this are rare.'') (ascii ''Pearl'') 0x04"
  have tp: "r_type (?es ! 0) \<in> set speaker_types"
    by (simp add: fragment_fields speaker_types_def)
  have sp: "is_speaker_name (r_text (?es ! 0))"
    by (simp add: fragment_fields pearl_is_speaker)
  have "drop (0 + 1) ?es = [fragment 2 0x04 (ascii ''Cases like this are rare.'')]"
    by simp
  then have run: "speaker_run basic_ucd (drop (0 + 1) ?es) 0 [] =
               (1, [ascii ''Cases like this are rare.''])"
    by (simp only: cases_text_in_speaker_run)
  from speaker_round [OF tp sp run]
  have r: "assemble_round basic_ucd ?es 0 = (1, Some ?u)"
    by (simp add: fragment_fields join_parts_def)
  have "assemble basic_ucd ?es 0 = [?u] @ assemble basic_ucd ?es (0 + 1 + 1)"
    using assemble_step [OF _ r] by simp
  moreover have "assemble basic_ucd ?es (0 + 1 + 1) = []"
    by (rule assemble_end) simp
  ultimately have "assemble basic_ucd ?es 0 = [?u]" by simp
  then have "combine_dialogue_entries basic_ucd ?es = [?u]"
    by (simp add: combine_dialogue_entries_def group_related_choices_def
        cases_text_no_candidate)
  with cases_text_is_bytecode show ?thesis by blast
qed

text \<open>
  C10, as the code has it. The three patterns \<open>switch\<close>, \<open>case\<close> and \<open>default\<close> are matched
  with \<open>re.match\<close>, at the start of the stripped text: a text is bytecode exactly if its
  lower-case form is none of the seven choice words and its stripped form begins with one
  of the three words in any case, or one of the seven other patterns matches it, or the
  density test holds. So a text that begins with one of the three words and is no
  choice word is bytecode. The main loop of the assembler drops an entry with such a
  text where it comes upon it as the current entry, unless the entry has the tag
  \<open>0x01\<close> or is a speaker name: nothing is appended and the cursor moves to the next
  entry.
\<close>

theorem is_bytecode_control_flow_prefix:
  "(is_bytecode U t \<longleftrightarrow>
      py_lower (strip t) \<notin> set ENGLISH_CHOICE_WORDS
      \<and> (begins_with_fold (strip t) (ascii ''switch'')
         \<or> begins_with_fold (strip t) (ascii ''case'')
         \<or> begins_with_fold (strip t) (ascii ''default'')
         \<or> list_ex (\<lambda>pattern. re_match U True pattern (strip t)) (drop 3 BYTECODE_PATTERNS)
         \<or> (length (py_split (strip t)) > 5
            \<and> 20 * length (filter (bytecode_word U) (py_split (strip t)))
                > 17 * length (py_split (strip t)))))
   \<and> ((begins_with_ci (strip t) (ascii ''switch'')
        \<or> begins_with_ci (strip t) (ascii ''case'')
        \<or> begins_with_ci (strip t) (ascii ''default''))
       \<and> py_lower (strip t) \<notin> set ENGLISH_CHOICE_WORDS
       \<longrightarrow> is_bytecode U t)
   \<and> (is_bytecode U (r_text (entries ! i))
       \<and> r_type (entries ! i) \<noteq> 0x01
       \<and> \<not> (r_type (entries ! i) \<in> set speaker_types \<and> is_speaker_name (r_text (entries ! i)))
       \<longrightarrow> assemble_round U entries i = (0, None))"
proof -
  note a = is_bytecode_characterisation [of U t]
  have b: "(begins_with_ci (strip t) (ascii ''switch'')
        \<or> begins_with_ci (strip t) (ascii ''case'')
        \<or> begins_with_ci (strip t) (ascii ''default''))
       \<and> py_lower (strip t) \<notin> set ENGLISH_CHOICE_WORDS
       \<longrightarrow> is_bytecode U t"
    unfolding a using begins_with_ci_fold by blast
  have c: "is_bytecode U (r_text (entries ! i))
       \<and> r_type (entries ! i) \<noteq> 0x01
       \<and> \<not> (r_type (entries ! i) \<in> set speaker_types \<and> is_speaker_name (r_text (entries ! i)))
       \<longrightarrow> assemble_round U entries i = (0, None)"
    using bytecode_entry_dropped by blast
  from a b c show ?thesis by (intro conjI)
qed

theorem is_bytecode_control_flow_prefix_witness:
  "begins_with_ci (strip (ascii ''Cases like this are rare.'')) (ascii ''case'')
   \<and> py_lower (strip (ascii ''Cases like this are rare.'')) \<notin> set ENGLISH_CHOICE_WORDS
   \<and> is_bytecode basic_ucd (ascii ''Cases like this are rare.'')
   \<and> assemble_round basic_ucd [fragment 2 0x04 (ascii ''Cases like this are rare.'')] 0 =
       (0, None)
   \<and> combine_dialogue_entries basic_ucd
       [fragment 2 0x04 (ascii ''Cases like this are rare.'')] = []
   \<and> \<not> is_bytecode basic_ucd (ascii ''In this case it is rare.'')"
proof -
  let ?es = "[fragment 2 0x04 (ascii ''Cases like this are rare.'')]"
  have b: "begins_with_ci (strip (ascii ''Cases like this are rare.'')) (ascii ''case'')"
    by (simp add: begins_with_ci_def ascii_lower_def str_defs)
  have n: "py_lower (strip (ascii ''Cases like this are rare.'')) \<notin> set ENGLISH_CHOICE_WORDS"
    by (simp add: ENGLISH_CHOICE_WORDS_def str_defs)
  note t = is_bytecode_control_flow_prefix
    [of basic_ucd "ascii ''Cases like this are rare.''" ?es 0]
  from t [THEN conjunct2, THEN conjunct1] b n
  have c: "is_bytecode basic_ucd (ascii ''Cases like this are rare.'')" by blast
  have tx: "r_text (?es ! 0) = ascii ''Cases like this are rare.''"
    and tp: "r_type (?es ! 0) = 0x04"
    by (simp_all add: fragment_fields)
  from c tx have "is_bytecode basic_ucd (r_text (?es ! 0))" by simp
  moreover from tp have "r_type (?es ! 0) \<noteq> 0x01" by simp
  moreover from tp have "\<not> (r_type (?es ! 0) \<in> set speaker_types
                             \<and> is_speaker_name (r_text (?es ! 0)))"
    by (simp add: speaker_types_def)
  ultimately have r: "assemble_round basic_ucd ?es 0 = (0, None)"
    using t [THEN conjunct2, THEN conjunct2] by blast
  have "assemble basic_ucd ?es (0 + 1 + 0) = []" by (rule assemble_end) simp
  moreover have "assemble basic_ucd ?es 0 = [] @ assemble basic_ucd ?es (0 + 1 + 0)"
    using assemble_step [OF _ r] by simp
  ultimately have "assemble basic_ucd ?es 0 = []" by simp
  then have d: "combine_dialogue_entries basic_ucd ?es = []"
    by (simp add: combine_dialogue_entries_def group_related_choices_def)
  from b n c r d in_this_case_no_bytecode show ?thesis by (intro conjI)
qed

section \<open>Properties of the ChoiceGrouper\<close>

subsection \<open>The groups\<close>

lemma concat_choice_groups: "concat (choice_groups xs) = xs"
  by (induction xs rule: choice_groups.induct) simp_all

lemma choice_groups_nonempty: "g \<in> set (choice_groups xs) \<Longrightarrow> g \<noteq> []"
  by (induction xs rule: choice_groups.induct) auto

lemma takeWhile_dropWhile_split:
  assumes "\<forall>x \<in> set xs. P x" and "\<forall>y \<in> set ys. \<not> P y"
  shows "takeWhile P (xs @ ys) = xs" and "dropWhile P (xs @ ys) = ys"
proof -
  from assms(2) have "takeWhile P ys = []" "dropWhile P ys = ys"
    by (cases ys; simp)+
  with assms(1) show "takeWhile P (xs @ ys) = xs" "dropWhile P (xs @ ys) = ys"
    by (simp_all add: takeWhile_append2 dropWhile_append2)
qed

lemma sorted_dropWhile_beyond:
  assumes "sorted (map u_index rest)"
  shows "\<forall>e \<in> set (dropWhile (in_window i) rest). u_index e - i > 50"
proof (cases "dropWhile (in_window i) rest")
  case Nil
  show ?thesis unfolding Nil by simp
next
  case (Cons d ds)
  from assms
  have "sorted (map u_index (takeWhile (in_window i) rest) @
                map u_index (dropWhile (in_window i) rest))"
    by (simp flip: map_append)
  then have s: "sorted (map u_index (d # ds))"
    unfolding Cons sorted_append by simp
  from Cons have "\<not> in_window i d"
    by (metis hd_dropWhile list.sel(1) list.distinct(1))
  then have "u_index d - i > 50" by (simp add: in_window_def)
  with s show ?thesis unfolding Cons by auto
qed

lemma separated_choice_groups:
  "sorted (map u_index xs) \<Longrightarrow> separated (choice_groups xs)"
proof (induction xs rule: choice_groups.induct)
  case 1
  then show ?case by simp
next
  case (2 current rest)
  let ?P = "in_window (u_index current)"
  from "2.prems" have sr: "sorted (map u_index rest)"
    and le: "\<forall>e \<in> set rest. u_index current \<le> u_index e" by auto
  from sr have "sorted (map u_index (takeWhile ?P rest) @ map u_index (dropWhile ?P rest))"
    by (simp flip: map_append)
  then have st: "sorted (map u_index (takeWhile ?P rest))"
    and sd: "sorted (map u_index (dropWhile ?P rest))"
    unfolding sorted_append by simp_all
  have "\<forall>e \<in> set (takeWhile ?P rest). e \<in> set rest" by (auto dest: set_takeWhileD)
  with le st have g_sorted: "sorted (map u_index (current # takeWhile ?P rest))" by auto
  have win: "\<forall>e \<in> set (current # takeWhile ?P rest). u_index e - u_index current \<le> 50"
    by (auto dest: set_takeWhileD simp: in_window_def)
  from sorted_dropWhile_beyond [OF sr]
  have beyond: "\<forall>e \<in> set (dropWhile ?P rest). u_index e - u_index current > 50" .
  from "2.IH" [OF sd] have "separated (choice_groups (dropWhile ?P rest))" .
  with g_sorted win beyond show ?case
    by (simp add: concat_choice_groups)
qed

lemma block_of_indices:
  "list_all2 block_of bs gs \<Longrightarrow> e \<in> set (concat bs) \<Longrightarrow>
   \<exists>e' \<in> set (concat gs). u_index e = u_index e'"
proof (induction bs gs rule: list_all2_induct)
  case Nil
  then show ?case by simp
next
  case (Cons x xs y ys)
  from Cons.prems have "e \<in> set x \<or> e \<in> set (concat xs)" by simp
  then show ?case
  proof
    assume "e \<in> set x"
    moreover from Cons.hyps(1) have "u_index ` set x \<subseteq> u_index ` set y"
      by (simp add: block_of_def)
    ultimately obtain e' where "e' \<in> set y" "u_index e = u_index e'" by blast
    then show ?thesis by auto
  next
    assume "e \<in> set (concat xs)"
    from Cons.IH [OF this] obtain e' where "e' \<in> set (concat ys)" "u_index e = u_index e'"
      by blast
    then show ?thesis by auto
  qed
qed

lemma choice_groups_blocks:
  "separated gs \<Longrightarrow> list_all2 block_of bs gs \<Longrightarrow>
   choice_groups (concat bs) = filter (\<lambda>b. b \<noteq> []) bs
   \<and> sorted (map u_index (concat bs))"
proof (induction gs arbitrary: bs)
  case Nil
  then show ?case by simp
next
  case (Cons g gs)
  from Cons.prems(2) obtain b bs' where bs: "bs = b # bs'" and bg: "block_of b g"
    and rest: "list_all2 block_of bs' gs"
    by (auto simp: list_all2_Cons2)
  from Cons.prems(1) have sep: "separated gs"
    and win: "\<forall>e \<in> set g. u_index e - u_index (hd g) \<le> 50"
    and beyond: "\<forall>e \<in> set (concat gs). u_index e - u_index (hd g) > 50"
    by simp_all
  from Cons.IH [OF sep rest]
  have IH: "choice_groups (concat bs') = filter (\<lambda>b. b \<noteq> []) bs'"
    and IHs: "sorted (map u_index (concat bs'))" by simp_all
  have far: "u_index e - u_index (hd g) > 50" if "e \<in> set (concat bs')" for e
  proof -
    from block_of_indices [OF rest that] obtain e'
      where e': "e' \<in> set (concat gs)" and eq: "u_index e = u_index e'" by blast
    from beyond e' have "u_index e' - u_index (hd g) > 50" by blast
    with eq show ?thesis by simp
  qed
  have near: "u_index e - u_index (hd g) \<le> 50" if "e \<in> set b" for e
  proof -
    from bg that obtain e' where e': "e' \<in> set g" and eq: "u_index e = u_index e'"
      unfolding block_of_def by blast
    from win e' have "u_index e' - u_index (hd g) \<le> 50" by blast
    with eq show ?thesis by simp
  qed
  from bg have sb: "sorted (map u_index b)" by (simp add: block_of_def)
  have "u_index x \<le> u_index y" if "x \<in> set b" "y \<in> set (concat bs')" for x y
    using near [OF that(1)] far [OF that(2)] by linarith
  then have "\<forall>x \<in> set (map u_index b). \<forall>y \<in> set (map u_index (concat bs')). x \<le> y"
    by auto
  with sb IHs have "sorted (map u_index b @ map u_index (concat bs'))"
    unfolding sorted_append by blast
  then have srt: "sorted (map u_index (concat bs))"
    unfolding bs by simp
  show ?case
  proof (cases b)
    case Nil
    with IH srt show ?thesis by (simp add: bs)
  next
    case (Cons x b')
    with bg have x: "u_index x = u_index (hd g)" by (simp add: block_of_def)
    have P: "\<forall>e \<in> set b'. in_window (u_index x) e"
      using near by (simp add: in_window_def x Cons)
    have Q: "\<forall>e \<in> set (concat bs'). \<not> in_window (u_index x) e"
    proof
      fix e assume "e \<in> set (concat bs')"
      from far [OF this] show "\<not> in_window (u_index x) e" by (simp add: in_window_def x)
    qed
    note tw = takeWhile_dropWhile_split [OF P Q]
    have "concat bs = x # (b' @ concat bs')" by (simp add: bs Cons)
    then have "choice_groups (concat bs) = (x # b') # choice_groups (concat bs')"
      by (simp only: choice_groups.simps tw)
    with IH have "choice_groups (concat bs) = filter (\<lambda>b. b \<noteq> []) bs"
      by (simp add: bs Cons)
    with srt show ?thesis by blast
  qed
qed

lemma in_window_comp: "in_window i = (\<lambda>n. n - i \<le> 50) \<circ> u_index"
  by (auto simp: in_window_def fun_eq_iff)

lemma choice_groups_lengths:
  "map u_index xs = map u_index ys \<Longrightarrow>
   map length (choice_groups xs) = map length (choice_groups ys)"
proof (induction xs arbitrary: ys rule: choice_groups.induct)
  case 1
  then show ?case by simp
next
  case (2 current rest)
  from "2.prems" obtain y ys' where ys: "ys = y # ys'" and y: "u_index y = u_index current"
    and r: "map u_index rest = map u_index ys'" by (cases ys) auto
  let ?Q = "\<lambda>n. n - u_index current \<le> 50"
  have t: "map u_index (takeWhile (in_window (u_index current)) rest) =
           map u_index (takeWhile (in_window (u_index current)) ys')"
    unfolding in_window_comp by (simp add: takeWhile_map [symmetric] r)
  have d: "map u_index (dropWhile (in_window (u_index current)) rest) =
           map u_index (dropWhile (in_window (u_index current)) ys')"
    unfolding in_window_comp by (simp add: dropWhile_map [symmetric] r)
  from t have "length (takeWhile (in_window (u_index current)) rest) =
           length (takeWhile (in_window (u_index current)) ys')"
    by (rule map_eq_imp_length_eq)
  with "2.IH" [OF d] show ?case by (simp add: ys y)
qed

lemma remove_marked_all_False:
  "\<forall>m \<in> set marks. \<not> m \<Longrightarrow> remove_marked U es marks = es"
  by (induction es arbitrary: marks) (auto split: list.splits)

lemma filter_noncandidates_remove_marked:
  "filter (\<lambda>e. \<not> is_choice_candidate U e) (remove_marked U es marks) =
   filter (\<lambda>e. \<not> is_choice_candidate U e) es"
  by (induction es arbitrary: marks) (auto split: list.splits)

lemma filter_candidates_remove_marked:
  "length marks = length (filter (is_choice_candidate U) es) \<Longrightarrow>
   filter (is_choice_candidate U) (remove_marked U es marks) =
   map fst (filter (\<lambda>p. \<not> snd p) (zip (filter (is_choice_candidate U) es) marks))"
  by (induction es arbitrary: marks) (auto split: list.splits)

lemma zip_replicate_marks:
  "map fst (filter (\<lambda>p. \<not> snd p) (zip g (replicate (length g) b))) = (if b then [] else g)"
  by (induction g) auto

lemma unmarked_groups:
  "map fst (filter (\<lambda>p. \<not> snd p)
     (zip (concat gs) (concat (map (\<lambda>g. replicate (length g) (p g)) gs)))) =
   concat (filter (\<lambda>g. \<not> p g) gs)"
  by (induction gs) (simp_all add: zip_replicate_marks)

lemma sorted_remove_marked:
  "sorted (map u_index es) \<Longrightarrow> sorted (map u_index (remove_marked U es marks))"
proof -
  have sub: "x \<in> set (remove_marked U es marks) \<Longrightarrow> x \<in> set es" for x es marks
    by (induction es arbitrary: marks) (auto split: list.splits if_splits)
  show "sorted (map u_index es) \<Longrightarrow> sorted (map u_index (remove_marked U es marks))"
    by (induction es arbitrary: marks) (auto split: list.splits dest: sub)
qed


lemma mset_blocks:
  "mset (concat (map (block U) gs)) =
   mset (concat (filter (\<lambda>g. \<not> convertible g) gs)) +
   mset (filter (is_choice_candidate U) (map combined_entry (filter convertible gs)))"
  by (induction gs) (simp_all add: block_def)

lemma length_marks:
  "length (concat (map (\<lambda>grp. replicate (length grp) (p grp)) gs)) = length (concat gs)"
  by (induction gs) simp_all

lemma candidates_kept:
  "filter (is_choice_candidate U)
     (remove_marked U s
        (concat (map (\<lambda>grp. replicate (length grp) (convertible grp))
                   (choice_groups (filter (is_choice_candidate U) s))))) =
   concat (filter (\<lambda>g. \<not> convertible g) (choice_groups (filter (is_choice_candidate U) s)))"
proof -
  let ?gs = "choice_groups (filter (is_choice_candidate U) s)"
  let ?marks = "concat (map (\<lambda>grp. replicate (length grp) (convertible grp)) ?gs)"
  have "length ?marks = length (filter (is_choice_candidate U) s)"
    by (simp only: length_marks concat_choice_groups)
  from filter_candidates_remove_marked [OF this]
  have "filter (is_choice_candidate U) (remove_marked U s ?marks) =
        map fst (filter (\<lambda>p. \<not> snd p) (zip (concat ?gs) ?marks))"
    by (simp only: concat_choice_groups)
  then show ?thesis by (simp only: unmarked_groups)
qed

lemma group_related_choices_mset:
  "mset (group_related_choices U s) =
   mset (filter (\<lambda>e. \<not> is_choice_candidate U e) s) +
   mset (concat (filter (\<lambda>g. \<not> convertible g)
                   (choice_groups (filter (is_choice_candidate U) s)))) +
   mset (map combined_entry
           (filter convertible (choice_groups (filter (is_choice_candidate U) s))))"
proof (cases "filter (is_choice_candidate U) s = []")
  case True
  then have "filter (\<lambda>e. \<not> is_choice_candidate U e) s = s"
    by (simp add: filter_empty_conv)
  with True show ?thesis by (simp add: group_related_choices_def)
next
  case False
  let ?gs = "choice_groups (filter (is_choice_candidate U) s)"
  let ?marks = "concat (map (\<lambda>grp. replicate (length grp) (convertible grp)) ?gs)"
  let ?rm = "remove_marked U s ?marks"
  have "mset ?rm = mset (filter (is_choice_candidate U) ?rm) +
                   mset (filter (\<lambda>e. \<not> is_choice_candidate U e) ?rm)"
    by simp
  then have "mset ?rm = mset (concat (filter (\<lambda>g. \<not> convertible g) ?gs)) +
                   mset (filter (\<lambda>e. \<not> is_choice_candidate U e) s)"
    by (simp only: candidates_kept filter_noncandidates_remove_marked)
  with False show ?thesis
    by (simp add: group_related_choices_def Let_def)
qed

lemma group_related_choices_sorted:
  "sorted (map u_index s) \<Longrightarrow> sorted (map u_index (group_related_choices U s))"
  by (simp add: group_related_choices_def Let_def)

lemma group_related_choices_fixed:
  assumes "sorted (map u_index s)"
    and "\<forall>g \<in> set (choice_groups (filter (is_choice_candidate U) s)). \<not> convertible g"
  shows "group_related_choices U s = s"
proof -
  let ?gs = "choice_groups (filter (is_choice_candidate U) s)"
  let ?marks = "concat (map (\<lambda>grp. replicate (length grp) (convertible grp)) ?gs)"
  from assms(2) have "\<forall>m \<in> set ?marks. \<not> m" by auto
  then have rm: "remove_marked U s ?marks = s" by (rule remove_marked_all_False)
  from assms(2) have none: "filter convertible ?gs = []" by (simp add: filter_empty_conv)
  from assms(1) have "sort_key u_index s = s" by (rule sort_key_id_if_sorted)
  with rm none show ?thesis
    by (simp add: group_related_choices_def Let_def)
qed

lemma block_of_block:
  assumes "g \<noteq> []" and "sorted (map u_index g)"
  shows "block_of (block U g) g"
proof -
  have "u_index (combined_entry g) = u_index (hd g)" by (simp add: combined_entry_def Let_def)
  moreover from assms(1) have "hd g \<in> set g" by simp
  ultimately show ?thesis using assms(2)
    by (auto simp: block_of_def block_def)
qed

lemma separated_blocks:
  "separated gs \<Longrightarrow> list_all2 block_of (map (block U) gs) gs"
  by (induction gs) (simp_all add: block_of_block)

lemma block_not_convertible:
  "b \<in> set (map (block U) gs) \<Longrightarrow> \<not> convertible b"
  by (auto simp: block_def convertible_def)

lemma second_pass_groups:
  assumes "sorted (map u_index s)" and "filter (is_choice_candidate U) s \<noteq> []"
  shows "\<forall>g \<in> set (choice_groups (filter (is_choice_candidate U) (group_related_choices U s))).
           \<not> convertible g"
proof -
  let ?c = "is_choice_candidate U"
  let ?gs = "choice_groups (filter ?c s)"
  let ?marks = "concat (map (\<lambda>grp. replicate (length grp) (convertible grp)) ?gs)"
  let ?rm = "remove_marked U s ?marks"
  let ?grouped = "map combined_entry (filter convertible ?gs)"
  let ?R = "group_related_choices U s"
  let ?L = "concat (map (block U) ?gs)"
  from assms(2) have R: "?R = sort_key u_index (?rm @ ?grouped)"
    by (simp add: group_related_choices_def Let_def)
  have "filter ?c ?R = sort_key u_index (filter ?c ?rm @ filter ?c ?grouped)"
    unfolding R by (simp add: filter_sort)
  then have "mset (filter ?c ?R) = mset (filter ?c ?rm) + mset (filter ?c ?grouped)"
    by simp
  then have m: "mset (filter ?c ?R) = mset ?L"
    by (simp only: candidates_kept mset_blocks)
  from assms(1) have "sorted (map u_index (filter ?c s))" by (rule sorted_filter)
  then have sep: "separated ?gs" by (rule separated_choice_groups)
  from choice_groups_blocks [OF sep separated_blocks [OF sep, of U]]
  have groups: "choice_groups ?L = filter (\<lambda>b. b \<noteq> []) (map (block U) ?gs)"
    and sL: "sorted (map u_index ?L)" by blast+
  from group_related_choices_sorted [OF assms(1), of U]
  have sR: "sorted (map u_index (filter ?c ?R))" by (rule sorted_filter)
  from m have "mset (map u_index ?L) = mset (map u_index (filter ?c ?R))" by simp
  from properties_for_sort [OF this sL]
  have "sort (map u_index (filter ?c ?R)) = map u_index ?L" .
  with sR have "map u_index (filter ?c ?R) = map u_index ?L"
    by (simp add: sorted_sort_id)
  from choice_groups_lengths [OF this]
  have len: "map length (choice_groups (filter ?c ?R)) =
             map length (filter (\<lambda>b. b \<noteq> []) (map (block U) ?gs))"
    by (simp only: groups)
  show ?thesis
  proof
    fix g assume "g \<in> set (choice_groups (filter ?c ?R))"
    then have "length g \<in> set (map length (choice_groups (filter ?c ?R)))" by simp
    with len obtain b where b: "b \<in> set (map (block U) ?gs)" and l: "length g = length b"
      by auto
    from block_not_convertible [OF b] l show "\<not> convertible g"
      by (simp add: convertible_def)
  qed
qed

lemma choice_groups_successive:
  "separated gs \<Longrightarrow>
   successively (\<lambda>g h. u_index (hd h) - u_index (hd g) > 50) gs"
proof (induction gs rule: induct_list012)
  case 1
  then show ?case by simp
next
  case (2 g)
  then show ?case by simp
next
  case (3 g h gs)
  from "3.prems" have "h \<noteq> []" by simp
  then have "hd h \<in> set (concat (h # gs))" by simp
  with "3.prems" have "u_index (hd h) - u_index (hd g) > 50" by (simp del: set_concat concat.simps)
  moreover from "3.prems" "3.IH"(2)
  have "successively (\<lambda>g h. u_index (hd h) - u_index (hd g) > 50) (h # gs)" by simp
  ultimately show ?case by simp
qed

lemma separated_members:
  "separated gs \<Longrightarrow> g \<in> set gs \<Longrightarrow> e \<in> set g \<Longrightarrow>
   g \<noteq> [] \<and> 0 \<le> u_index e - u_index (hd g) \<and> u_index e - u_index (hd g) \<le> 50"
proof (induction gs)
  case Nil
  then show ?case by simp
next
  case (Cons a gs)
  show ?case
  proof (cases "g = a")
    case True
    from Cons.prems(1) have ne: "a \<noteq> []" and s: "sorted (map u_index a)"
      and w: "\<forall>e \<in> set a. u_index e - u_index (hd a) \<le> 50" by simp_all
    from ne obtain x xs where a: "a = x # xs" by (cases a) auto
    from s Cons.prems(3) True have "u_index (hd a) \<le> u_index e" by (auto simp: a)
    with ne w Cons.prems(3) True show ?thesis by simp
  next
    case False
    with Cons show ?thesis by simp
  qed
qed

lemma hai_candidate: "is_choice_candidate basic_ucd (hai i)"
  by (simp add: hai_def mk_utterance_def choice_defs str_defs cls_defs re_defs Let_def)

lemma spaced_hai_candidate: "is_choice_candidate basic_ucd (spaced_hai i)"
  by (simp add: spaced_hai_def mk_utterance_def choice_defs str_defs cls_defs re_defs Let_def)

lemma iie_candidate: "is_choice_candidate basic_ucd (iie i)"
  by (simp add: iie_def mk_utterance_def choice_defs str_defs cls_defs re_defs Let_def)

lemma narration_no_candidate: "\<not> is_choice_candidate basic_ucd (narration i)"
  by (simp add: narration_def mk_utterance_def choice_defs str_defs Let_def)

lemma example_indices:
  "u_index (hai i) = i" "u_index (spaced_hai i) = i" "u_index (iie i) = i"
  "u_index (narration i) = i"
  by (simp_all add: hai_def spaced_hai_def iie_def narration_def mk_utterance_def)

lemma hai_unsorted_first_pass:
  "group_related_choices basic_ucd [hai 100, hai 0, hai 1, hai 2, hai 3, hai 4] =
   [hai 0, hai 1, hai 2, hai 3, hai 4, hai 100]"
  by (simp add: group_related_choices_def Let_def hai_candidate example_indices in_window_def
      convertible_def)

lemma hai_unsorted_second_pass:
  "length (group_related_choices basic_ucd [hai 0, hai 1, hai 2, hai 3, hai 4, hai 100]) = 2"
  by (simp add: group_related_choices_def Let_def hai_candidate example_indices in_window_def
      convertible_def combined_entry_def)

subsection \<open>Idempotence\<close>

text \<open>
  The ChoiceGrouper is called in one place, at the end of \<open>combine_dialogue_entries\<close>, on
  the list that the main loop has built. The main loop moves its cursor forward only and
  gives every entry it appends the index of the entry at the cursor, and
  \<open>decompile_full_format\<close> sorts the entries by index before it calls the assembler: the
  list is in non-decreasing order of the indices. On such lists the window test
  \<open>next_index - current_index <= 50\<close> compares non-negative differences. The following
  remark shows what the order is needed for: on six candidates whose indices come in the
  order 100, 0, 1, 2, 3, 4, all differences are negative and one group of six is formed.
\<close>

lemma unordered_indices_regrouped:
  "group_related_choices basic_ucd [hai 100, hai 0, hai 1, hai 2, hai 3, hai 4] =
     [hai 0, hai 1, hai 2, hai 3, hai 4, hai 100]
   \<and> length (group_related_choices basic_ucd
                (group_related_choices basic_ucd [hai 100, hai 0, hai 1, hai 2, hai 3, hai 4])) = 2
   \<and> group_related_choices basic_ucd
       (group_related_choices basic_ucd [hai 100, hai 0, hai 1, hai 2, hai 3, hai 4]) \<noteq>
     group_related_choices basic_ucd [hai 100, hai 0, hai 1, hai 2, hai 3, hai 4]"
proof -
  have l: "length (group_related_choices basic_ucd
             (group_related_choices basic_ucd [hai 100, hai 0, hai 1, hai 2, hai 3, hai 4])) = 2"
    by (simp only: hai_unsorted_first_pass hai_unsorted_second_pass)
  have l6: "length (group_related_choices basic_ucd [hai 100, hai 0, hai 1, hai 2, hai 3, hai 4]) = 6"
    by (simp only: hai_unsorted_first_pass) simp
  have "group_related_choices basic_ucd
       (group_related_choices basic_ucd [hai 100, hai 0, hai 1, hai 2, hai 3, hai 4]) \<noteq>
     group_related_choices basic_ucd [hai 100, hai 0, hai 1, hai 2, hai 3, hai 4]"
  proof
    assume e: "group_related_choices basic_ucd
       (group_related_choices basic_ucd [hai 100, hai 0, hai 1, hai 2, hai 3, hai 4]) =
     group_related_choices basic_ucd [hai 100, hai 0, hai 1, hai 2, hai 3, hai 4]"
    from l have
      "length (group_related_choices basic_ucd [hai 100, hai 0, hai 1, hai 2, hai 3, hai 4]) = 2"
      by (simp only: e)
    with l6 show False by simp
  qed
  with l hai_unsorted_first_pass show ?thesis by blast
qed

text \<open>
  On a list in non-decreasing order of the indices a second pass changes nothing: the
  groups of the first pass have disjoint index ranges, so the second pass meets each of
  them again as a single combined entry, as nothing, or as the unconverted group it was,
  and finds no group of two to five entries.
\<close>

lemma second_pass_unchanged:
  assumes "sorted (map u_index s)"
  shows "group_related_choices U (group_related_choices U s) = group_related_choices U s"
proof (cases "filter (is_choice_candidate U) s = []")
  case True
  then have "group_related_choices U s = s" by (simp add: group_related_choices_def)
  then show ?thesis by simp
next
  case False
  from group_related_choices_fixed
    [OF group_related_choices_sorted [OF assms] second_pass_groups [OF assms False]]
  show ?thesis .
qed

subsection \<open>The clusters and what becomes of them\<close>

text \<open>
  C8 does not hold as it is worded: the options of a combined entry are not the texts of
  the candidates but these texts without the white space around them
  (\<open>e.get('text', '').strip()\<close>). The two candidates below form one cluster; the first
  has the text \<open>hai\<close> after a space, and the option made of it has no space.
\<close>

theorem choice_options_not_candidate_texts:
  "filter (is_choice_candidate basic_ucd) [spaced_hai 1, iie 2] = [spaced_hai 1, iie 2]
   \<and> choice_groups [spaced_hai 1, iie 2] = [[spaced_hai 1, iie 2]]
   \<and> group_related_choices basic_ucd [spaced_hai 1, iie 2] =
       [\<lparr>u_index = 1,
         u_text = [0x306F, 0x3044, 0x20, 0x2F, 0x20, 0x3044, 0x3044, 0x3048],
         u_speaker = [], u_type = 2, u_is_choice = True, u_choice_count = 2,
         u_choice_options = [[0x306F, 0x3044], [0x3044, 0x3044, 0x3048]]\<rparr>]
   \<and> map u_text [spaced_hai 1, iie 2] = [[0x20, 0x306F, 0x3044], [0x3044, 0x3044, 0x3048]]
   \<and> u_choice_options (hd (group_related_choices basic_ucd [spaced_hai 1, iie 2])) \<noteq>
       map u_text [spaced_hai 1, iie 2]"
proof -
  have c: "filter (is_choice_candidate basic_ucd) [spaced_hai 1, iie 2] = [spaced_hai 1, iie 2]"
    by (simp add: spaced_hai_candidate iie_candidate)
  have g: "choice_groups [spaced_hai 1, iie 2] = [[spaced_hai 1, iie 2]]"
    by (simp add: in_window_def example_indices)
  have r: "group_related_choices basic_ucd [spaced_hai 1, iie 2] =
       [\<lparr>u_index = 1,
         u_text = [0x306F, 0x3044, 0x20, 0x2F, 0x20, 0x3044, 0x3044, 0x3048],
         u_speaker = [], u_type = 2, u_is_choice = True, u_choice_count = 2,
         u_choice_options = [[0x306F, 0x3044], [0x3044, 0x3044, 0x3048]]\<rparr>]"
    by (simp add: group_related_choices_def Let_def c g convertible_def spaced_hai_candidate
        iie_candidate combined_entry_def in_window_def example_indices)
       (simp add: spaced_hai_def iie_def mk_utterance_def str_defs)
  have t: "map u_text [spaced_hai 1, iie 2] = [[0x20, 0x306F, 0x3044], [0x3044, 0x3044, 0x3048]]"
    by (simp add: spaced_hai_def iie_def mk_utterance_def)
  have "u_choice_options (hd (group_related_choices basic_ucd [spaced_hai 1, iie 2])) \<noteq>
       map u_text [spaced_hai 1, iie 2]"
    by (simp only: r t) simp
  with c g r t show ?thesis by blast
qed

text \<open>
  C8, with the options as the code makes them, for entries in non-decreasing order of
  their indices. The candidates are cut into consecutive groups; no group is empty, the
  index of each member lies at most 50 above the index of the first member of its
  group, and the first member of the next group lies more than 50 above it. The result
  holds, each as often as it occurs, the entries that are no candidates, the members of
  the groups with fewer than two or more than five members, and one combined entry for
  each group of two to five members. The combined entry has the index of the first
  member, the type \<open>0x02\<close>, the mark \<open>is_choice\<close>, the trimmed texts of the members in
  their order as options, their number as count, and the options joined by \<open>' / '\<close> as
  text. The result is in non-decreasing order of the indices.
\<close>

theorem group_related_choices_clusters:
  assumes "sorted (map u_index s)"
  shows "concat (choice_groups (filter (is_choice_candidate U) s)) =
           filter (is_choice_candidate U) s
         \<and> (\<forall>g \<in> set (choice_groups (filter (is_choice_candidate U) s)).
               g \<noteq> [] \<and> (\<forall>e \<in> set g. 0 \<le> u_index e - u_index (hd g)
                                         \<and> u_index e - u_index (hd g) \<le> 50))
         \<and> successively (\<lambda>g h. u_index (hd h) - u_index (hd g) > 50)
               (choice_groups (filter (is_choice_candidate U) s))
         \<and> mset (group_related_choices U s) =
               mset (filter (\<lambda>e. \<not> is_choice_candidate U e) s) +
               mset (concat (filter (\<lambda>g. \<not> (2 \<le> length g \<and> length g \<le> 5))
                               (choice_groups (filter (is_choice_candidate U) s)))) +
               mset (map combined_entry
                       (filter (\<lambda>g. 2 \<le> length g \<and> length g \<le> 5)
                          (choice_groups (filter (is_choice_candidate U) s))))
         \<and> (\<forall>g \<in> set (choice_groups (filter (is_choice_candidate U) s)).
               u_index (combined_entry g) = u_index (hd g)
               \<and> u_type (combined_entry g) = 2
               \<and> u_is_choice (combined_entry g)
               \<and> u_choice_options (combined_entry g) = map (\<lambda>e. strip (u_text e)) g
               \<and> u_choice_count (combined_entry g) = length g
               \<and> u_text (combined_entry g) =
                   py_join (ascii '' / '') (u_choice_options (combined_entry g)))
         \<and> sorted (map u_index (group_related_choices U s))"
proof -
  let ?gs = "choice_groups (filter (is_choice_candidate U) s)"
  from assms have "sorted (map u_index (filter (is_choice_candidate U) s))"
    by (rule sorted_filter)
  then have sep: "separated ?gs" by (rule separated_choice_groups)
  have 1: "concat ?gs = filter (is_choice_candidate U) s" by (rule concat_choice_groups)
  have 2: "\<forall>g \<in> set ?gs. g \<noteq> [] \<and> (\<forall>e \<in> set g. 0 \<le> u_index e - u_index (hd g)
                                         \<and> u_index e - u_index (hd g) \<le> 50)"
  proof
    fix g assume g: "g \<in> set ?gs"
    then have "g \<noteq> []" by (rule choice_groups_nonempty)
    moreover have "\<forall>e \<in> set g. 0 \<le> u_index e - u_index (hd g)
                                         \<and> u_index e - u_index (hd g) \<le> 50"
      using separated_members [OF sep g] by blast
    ultimately show "g \<noteq> [] \<and> (\<forall>e \<in> set g. 0 \<le> u_index e - u_index (hd g)
                                         \<and> u_index e - u_index (hd g) \<le> 50)" ..
  qed
  have 3: "successively (\<lambda>g h. u_index (hd h) - u_index (hd g) > 50) ?gs"
    using sep by (rule choice_groups_successive)
  have c: "convertible = (\<lambda>g. 2 \<le> length g \<and> length g \<le> 5)"
    by (simp add: convertible_def fun_eq_iff)
  have 4: "mset (group_related_choices U s) =
               mset (filter (\<lambda>e. \<not> is_choice_candidate U e) s) +
               mset (concat (filter (\<lambda>g. \<not> (2 \<le> length g \<and> length g \<le> 5)) ?gs)) +
               mset (map combined_entry (filter (\<lambda>g. 2 \<le> length g \<and> length g \<le> 5) ?gs))"
    using group_related_choices_mset [of U s] unfolding c .
  have 5: "\<forall>g \<in> set ?gs.
               u_index (combined_entry g) = u_index (hd g)
               \<and> u_type (combined_entry g) = 2
               \<and> u_is_choice (combined_entry g)
               \<and> u_choice_options (combined_entry g) = map (\<lambda>e. strip (u_text e)) g
               \<and> u_choice_count (combined_entry g) = length g
               \<and> u_text (combined_entry g) =
                   py_join (ascii '' / '') (u_choice_options (combined_entry g))"
    by (simp add: combined_entry_def Let_def)
  have 6: "sorted (map u_index (group_related_choices U s))"
    using assms by (rule group_related_choices_sorted)
  from 1 2 3 4 5 6 show ?thesis by (intro conjI)
qed

theorem group_related_choices_clusters_witness:
  "sorted (map u_index [spaced_hai 1, narration 2, iie 3, hai 100])
   \<and> choice_groups
       (filter (is_choice_candidate basic_ucd) [spaced_hai 1, narration 2, iie 3, hai 100]) =
     [[spaced_hai 1, iie 3], [hai 100]]
   \<and> mset (group_related_choices basic_ucd [spaced_hai 1, narration 2, iie 3, hai 100]) =
     mset [narration 2, hai 100, combined_entry [spaced_hai 1, iie 3]]
   \<and> u_choice_options (combined_entry [spaced_hai 1, iie 3]) =
     [[0x306F, 0x3044], [0x3044, 0x3044, 0x3048]]"
proof -
  have s: "sorted (map u_index [spaced_hai 1, narration 2, iie 3, hai 100])"
    by (simp add: example_indices)
  have g: "choice_groups
       (filter (is_choice_candidate basic_ucd) [spaced_hai 1, narration 2, iie 3, hai 100]) =
     [[spaced_hai 1, iie 3], [hai 100]]"
    by (simp add: spaced_hai_candidate iie_candidate hai_candidate narration_no_candidate
        in_window_def example_indices)
  note t = group_related_choices_clusters [OF s, of basic_ucd]
  from t [THEN conjunct2, THEN conjunct2, THEN conjunct2, THEN conjunct1]
  have m: "mset (group_related_choices basic_ucd [spaced_hai 1, narration 2, iie 3, hai 100]) =
     mset [narration 2, hai 100, combined_entry [spaced_hai 1, iie 3]]"
    unfolding g
    by (simp add: spaced_hai_candidate iie_candidate hai_candidate narration_no_candidate)
  from t [THEN conjunct2, THEN conjunct2, THEN conjunct2, THEN conjunct2, THEN conjunct1]
  have "u_choice_options (combined_entry [spaced_hai 1, iie 3]) =
          map (\<lambda>e. strip (u_text e)) [spaced_hai 1, iie 3]"
    unfolding g by simp
  then have o: "u_choice_options (combined_entry [spaced_hai 1, iie 3]) =
     [[0x306F, 0x3044], [0x3044, 0x3044, 0x3048]]"
    by (simp add: spaced_hai_def iie_def mk_utterance_def str_defs)
  from s g m o show ?thesis by (intro conjI)
qed

section \<open>Properties of the DialogueAssembler\<close>

subsection \<open>The order of the assembled entries\<close>

lemma assemble_round_index:
  "assemble_round U entries i = (n, Some u) \<Longrightarrow> u_index u = r_index (entries ! i)"
  by (auto simp: assemble_round_def Let_def mk_utterance_def
      split: if_splits prod.splits option.splits)

lemma assemble_indices:
  "sorted (map r_index entries) \<Longrightarrow>
   sorted (map u_index (assemble U entries i))
   \<and> (\<forall>u \<in> set (assemble U entries i). i < length entries
                                          \<and> r_index (entries ! i) \<le> u_index u)"
proof (induction U entries i rule: assemble.induct)
  case (1 U entries i)
  show ?case
  proof (cases "i < length entries")
    case False
    then show ?thesis by (subst assemble.simps, simp)+
  next
    case True
    obtain n appended where r: "assemble_round U entries i = (n, appended)"
      by (cases "assemble_round U entries i")
    let ?rest = "assemble U entries (i + 1 + n)"
    from "1.IH" [OF True r [symmetric] "1.prems"]
    have IH: "sorted (map u_index ?rest)"
      and low: "\<forall>u \<in> set ?rest. i + 1 + n < length entries
                                  \<and> r_index (entries ! (i + 1 + n)) \<le> u_index u"
      by blast+
    have mono: "r_index (entries ! i) \<le> r_index (entries ! (i + 1 + n))"
      if "i + 1 + n < length entries"
      using sorted_nth_mono [of "map r_index entries" i "i + 1 + n"] "1.prems" that by simp
    have rest_low: "\<forall>u \<in> set ?rest. r_index (entries ! i) \<le> u_index u"
    proof
      fix u assume "u \<in> set ?rest"
      with low have "i + 1 + n < length entries"
        and "r_index (entries ! (i + 1 + n)) \<le> u_index u" by blast+
      with mono show "r_index (entries ! i) \<le> u_index u" by force
    qed
    have unfold: "assemble U entries i =
                    (case appended of None \<Rightarrow> [] | Some u \<Rightarrow> [u]) @ ?rest"
      using True r by (subst assemble.simps) simp
    show ?thesis
    proof (cases appended)
      case None
      with unfold IH rest_low True show ?thesis by simp
    next
      case (Some u)
      with r have "u_index u = r_index (entries ! i)" by (simp add: assemble_round_index)
      with unfold Some IH rest_low True show ?thesis by simp
    qed
  qed
qed

text \<open>
  The list that the main loop hands to the ChoiceGrouper is in non-decreasing order of
  the indices whenever the entries are, and \<open>decompile_full_format\<close> sorts them by
  \<open>(index, offset)\<close> before it calls the assembler.
\<close>

lemma assemble_in_index_order:
  "sorted (map r_index entries) \<Longrightarrow> sorted (map u_index (assemble U entries 0))"
  using assemble_indices by blast

lemma combine_dialogue_entries_regrouped:
  assumes "sorted (map r_index entries)"
  shows "group_related_choices U (combine_dialogue_entries U entries) =
         combine_dialogue_entries U entries"
proof -
  let ?s = "assemble U entries 0"
  from assms have s: "sorted (map u_index ?s)" by (rule assemble_in_index_order)
  show ?thesis
  proof (cases "filter (is_choice_candidate U) ?s = []")
    case True
    then have "group_related_choices U ?s = ?s" by (simp add: group_related_choices_def)
    then show ?thesis by (simp add: combine_dialogue_entries_def)
  next
    case False
    from group_related_choices_fixed
      [OF group_related_choices_sorted [OF s] second_pass_groups [OF s False]]
    show ?thesis by (simp add: combine_dialogue_entries_def)
  qed
qed

subsection \<open>Quotes across two fragments\<close>

lemma first_fragment_goes_on:
  assumes "t1 \<in> set speaker_run_types"
  shows "speaker_run U (fragment i1 t1 he_said_hello # rest) 0 [] =
         speaker_run U rest 1 [he_said_hello]"
proof -
  have a: "\<not> is_name_indicator U he_said_hello"
    by (simp add: he_said_hello_def is_name_indicator_def str_defs re_defs cls_09_def)
  have b: "\<not> startswith (strip he_said_hello) [0x22, 0x2D, 0x2D]"
    by (simp add: he_said_hello_def str_defs)
  have c: "\<not> ends_with_punct (rstrip he_said_hello)"
    by (simp add: he_said_hello_def ends_with_punct_def str_defs)
  have d: "\<not> is_bytecode U he_said_hello"
    by (simp add: he_said_hello_def str_defs cls_defs re_defs Let_def)
  have e: "\<not> has_japanese he_said_hello"
    by (simp add: he_said_hello_def str_defs)
  have f: "\<not> language_break U [] he_said_hello" "\<not> capital_break U [] he_said_hello"
    by (simp_all add: language_break_def capital_break_def)
  from assms a b c d e f show ?thesis
    by (simp add: fragment_fields)
qed

lemma second_fragment_closes:
  assumes "t2 \<in> set speaker_run_types"
  shows "speaker_run U (fragment i2 t2 world_and_left # rest) 1 [he_said_hello] =
         (2, [he_said_hello, world_and_left])"
proof -
  have a: "\<not> is_name_indicator U world_and_left"
    by (simp add: world_and_left_def is_name_indicator_def str_defs re_defs cls_09_def)
  have b: "\<not> startswith (strip world_and_left) [0x22, 0x2D, 0x2D]"
    by (simp add: world_and_left_def str_defs)
  have c: "ends_with_punct (rstrip world_and_left)"
    by (simp add: world_and_left_def ends_with_punct_def str_defs)
  have d: "\<not> unclosed_quote [he_said_hello, world_and_left]"
    by (simp add: unclosed_quote_def he_said_hello_def world_and_left_def str_defs)
  from assms a b c d show ?thesis
    by (simp add: fragment_fields)
qed

lemma joined_fragments:
  "join_parts [he_said_hello, world_and_left] = he_said_hello_world_and_left"
  by (simp add: join_parts_def add_part_def he_said_hello_def world_and_left_def
      he_said_hello_world_and_left_def ascii_def)

lemma quote_counts:
  "odd (count_char he_said_hello 0x22)"
  "even (count_char he_said_hello_world_and_left 0x22)"
  by (simp_all add: he_said_hello_def he_said_hello_world_and_left_def str_defs)

lemma merged_text_no_candidate:
  "\<not> is_choice_candidate U (mk_utterance i he_said_hello_world_and_left sp tp)"
  by (simp add: is_choice_candidate_def mk_utterance_def he_said_hello_world_and_left_def
      str_defs Let_def)

text \<open>
  C7. A speaker entry (tag \<open>0x02\<close> or \<open>0x03\<close>, a speaker name as text) is followed by the
  fragment \<open>He said "hello\<close> and the fragment \<open>world" and left.\<close>, each with one of the
  tags that the speaker run combines; any entries may come before and behind. The first
  fragment has an odd number of double quotes. The speaker run does not end behind it:
  it takes both fragments and ends behind the second. The round of the main loop at the
  speaker entry moves the cursor over both and appends one entry of the speaker with the
  text \<open>He said "hello world" and left.\<close>, which has an even number of double quotes;
  and if the three entries are all there is, this entry is the whole result of
  \<open>combine_dialogue_entries\<close>. This holds for every content of the Unicode tables.
\<close>

theorem quote_balance_merge:
  assumes "is_speaker_name speaker" and "speaker_tag \<in> set speaker_types"
    and "t1 \<in> set speaker_run_types" and "t2 \<in> set speaker_run_types"
  shows "odd (count_char he_said_hello 0x22)
         \<and> speaker_run U
             ([fragment i1 t1 he_said_hello, fragment i2 t2 world_and_left] @ behind) 0 [] =
             (2, [he_said_hello, world_and_left])
         \<and> assemble_round U
             (ahead @ [fragment i0 speaker_tag speaker, fragment i1 t1 he_said_hello,
                       fragment i2 t2 world_and_left] @ behind) (length ahead) =
             (2, Some (mk_utterance i0 he_said_hello_world_and_left speaker 0x04))
         \<and> combine_dialogue_entries U
             [fragment i0 speaker_tag speaker, fragment i1 t1 he_said_hello,
              fragment i2 t2 world_and_left] =
             [mk_utterance i0 he_said_hello_world_and_left speaker 0x04]
         \<and> even (count_char he_said_hello_world_and_left 0x22)"
proof -
  let ?three = "[fragment i0 speaker_tag speaker, fragment i1 t1 he_said_hello,
                 fragment i2 t2 world_and_left]"
  let ?u = "mk_utterance i0 he_said_hello_world_and_left speaker 0x04"
  have run: "speaker_run U
             ([fragment i1 t1 he_said_hello, fragment i2 t2 world_and_left] @ rest) 0 [] =
             (2, [he_said_hello, world_and_left])" for rest
    using first_fragment_goes_on [OF assms(3), of U i1 "fragment i2 t2 world_and_left # rest"]
      second_fragment_closes [OF assms(4), of U i2 rest]
    by simp
  have round: "assemble_round U (pre @ ?three @ rest) (length pre) = (2, Some ?u)" for pre rest
  proof -
    let ?es = "pre @ ?three @ rest"
    have cur: "?es ! length pre = fragment i0 speaker_tag speaker" by simp
    have dr: "drop (length pre + 1) ?es =
                [fragment i1 t1 he_said_hello, fragment i2 t2 world_and_left] @ rest"
      by simp
    have tp: "r_type (?es ! length pre) \<in> set speaker_types"
      using assms(2) by (simp only: cur fragment_fields)
    have sp: "is_speaker_name (r_text (?es ! length pre))"
      using assms(1) by (simp only: cur fragment_fields)
    have rn: "speaker_run U (drop (length pre + 1) ?es) 0 [] =
                (2, [he_said_hello, world_and_left])"
      by (simp only: dr run)
    from speaker_round [OF tp sp rn] show ?thesis
      by (simp only: cur fragment_fields joined_fragments) simp
  qed
  from round [of "[]" "[]"] have r0: "assemble_round U ?three 0 = (2, Some ?u)" by simp
  have "assemble U ?three 0 = [?u] @ assemble U ?three (0 + 1 + 2)"
    using assemble_step [OF _ r0] by simp
  moreover have "assemble U ?three (0 + 1 + 2) = []" by (rule assemble_end) simp
  ultimately have "assemble U ?three 0 = [?u]" by simp
  then have all: "combine_dialogue_entries U ?three = [?u]"
    by (simp add: combine_dialogue_entries_def group_related_choices_def
        merged_text_no_candidate)
  from quote_counts run [of behind] round [of ahead behind] all show ?thesis
    by (intro conjI)
qed

theorem quote_balance_merge_witness:
  "is_speaker_name (ascii ''Pearl'') \<and> 0x02 \<in> set speaker_types
   \<and> 0x04 \<in> set speaker_run_types
   \<and> combine_dialogue_entries basic_ucd
       [fragment 1 0x02 (ascii ''Pearl''), fragment 2 0x04 he_said_hello,
        fragment 3 0x04 world_and_left] =
       [mk_utterance 1 he_said_hello_world_and_left (ascii ''Pearl'') 0x04]
   \<and> even (count_char he_said_hello_world_and_left 0x22)"
proof -
  have a: "is_speaker_name (ascii ''Pearl'')" by (rule pearl_is_speaker)
  have b: "0x02 \<in> set speaker_types" by (simp add: speaker_types_def)
  have c: "0x04 \<in> set speaker_run_types" by (simp add: speaker_run_types_def)
  note t = quote_balance_merge [OF a b c c, of basic_ucd 2 3 "[]" "[]" 1]
  from a b c t [THEN conjunct2, THEN conjunct2, THEN conjunct2] show ?thesis
    by (intro conjI) blast+
qed

subsection \<open>Idempotence of the ChoiceGrouper\<close>

text \<open>
  C4. Choice grouping is idempotent on every sequence in non-decreasing order of the
  indices: a second pass returns the result of the first pass unchanged, and no combined
  entry is clustered again. Every sequence the grouper is given is in this order: it is
  called in one place, on the list built by the main loop of the assembler, and the
  result of \<open>combine_dialogue_entries\<close> on entries sorted by index is a fixed point of
  the grouper.
\<close>

theorem group_related_choices_idempotent_on_sorted:
  "(sorted (map u_index s) \<longrightarrow>
      group_related_choices U (group_related_choices U s) = group_related_choices U s)
   \<and> (sorted (map r_index entries) \<longrightarrow>
        sorted (map u_index (assemble U entries 0))
        \<and> group_related_choices U (combine_dialogue_entries U entries) =
            combine_dialogue_entries U entries)"
  using second_pass_unchanged assemble_in_index_order combine_dialogue_entries_regrouped
  by blast

theorem group_related_choices_idempotent_on_sorted_witness:
  "sorted (map u_index [hai 0, hai 1, narration 2, hai 51])
   \<and> length (group_related_choices basic_ucd [hai 0, hai 1, narration 2, hai 51]) = 3
   \<and> group_related_choices basic_ucd
       (group_related_choices basic_ucd [hai 0, hai 1, narration 2, hai 51]) =
     group_related_choices basic_ucd [hai 0, hai 1, narration 2, hai 51]"
proof -
  have s: "sorted (map u_index [hai 0, hai 1, narration 2, hai 51])"
    by (simp add: example_indices)
  have l: "length (group_related_choices basic_ucd [hai 0, hai 1, narration 2, hai 51]) = 3"
    by (simp add: group_related_choices_def Let_def hai_candidate narration_no_candidate
        example_indices in_window_def convertible_def combined_entry_def)
  from s group_related_choices_idempotent_on_sorted
    [of "[hai 0, hai 1, narration 2, hai 51]" basic_ucd "[]", THEN conjunct1]
  have "group_related_choices basic_ucd
       (group_related_choices basic_ucd [hai 0, hai 1, narration 2, hai 51]) =
     group_related_choices basic_ucd [hai 0, hai 1, narration 2, hai 51]"
    by blast
  with s l show ?thesis by (intro conjI)
qed

section \<open>Properties of the EntryExtractor\<close>

subsection \<open>A round goes forward and records its position\<close>

lemma padded_skip_forward: "p \<le> padded_skip data p"
proof (induction data p rule: padded_skip.induct)
  case (1 data pos)
  show ?case
  proof (cases "pos + 24 < length data")
    case False
    then show ?thesis by (subst padded_skip.simps) simp
  next
    case True
    show ?thesis
    proof (cases "padded_next_header data pos")
      case None
      with True show ?thesis by (subst padded_skip.simps) simp
    next
      case (Some found)
      show ?thesis
      proof (cases found)
        case True
        with Some \<open>pos + 24 < length data\<close> show ?thesis by (subst padded_skip.simps) simp
      next
        case False
        with "1.IH" [OF True Some] Some True
        have "pos + 1 \<le> padded_skip data (pos + 1)" by simp
        with False Some True show ?thesis by (subst padded_skip.simps) simp
      qed
    qed
  qed
qed

lemma compact_skip_forward: "p \<le> compact_skip data p"
proof (induction data p rule: compact_skip.induct)
  case (1 data pos)
  show ?case
  proof (cases "pos + 16 < length data \<and> byte_at data pos = Some 0")
    case False
    then show ?thesis by (subst compact_skip.simps) auto
  next
    case True
    from "1.IH" [OF True] have "pos + 1 \<le> compact_skip data (pos + 1)" .
    with True show ?thesis by (subst compact_skip.simps) simp
  qed
qed

lemma padded_entry_forward:
  assumes "padded_entry U data pos padding_offset t i s = Goto pos' appended"
  shows "pos < pos'" and "\<forall>e. appended = Some e \<longrightarrow> r_offset e = Some pos"
proof -
  from assms
  have "pos' = pos + 1 \<or> (\<exists>n. pos' = padded_skip data (pos + padding_offset + 12 + n))"
    by (auto simp: padded_entry_def Let_def split: if_splits option.splits)
  then show "pos < pos'"
  proof
    assume "pos' = pos + 1"
    then show ?thesis by simp
  next
    assume "\<exists>n. pos' = padded_skip data (pos + padding_offset + 12 + n)"
    then obtain n where "pos' = padded_skip data (pos + padding_offset + 12 + n)" ..
    with padded_skip_forward [of "pos + padding_offset + 12 + n" data] show ?thesis by simp
  qed
  from assms show "\<forall>e. appended = Some e \<longrightarrow> r_offset e = Some pos"
    by (auto simp: padded_entry_def Let_def split: if_splits option.splits)
qed

lemma padded_try_cases:
  assumes "padded_try U data pos = Some r"
  shows "r = Goto (pos + 1) None \<or> (\<exists>padding_offset t i s. r = padded_entry U data pos padding_offset t i s)"
proof (cases "all_null data pos 4 = Some True")
  case False
  with assms have "r = Goto (pos + 1) None"
    by (cases "all_null data pos 4") (auto simp: padded_try_def)
  then show ?thesis ..
next
  case True
  with assms show ?thesis
    by (auto simp: padded_try_def Let_def bind_eq_Some_conv)
qed

lemma padded_round_forward:
  assumes "padded_round U data pos = Goto pos' appended"
  shows "pos < pos' \<and> (\<forall>e. appended = Some e \<longrightarrow> r_offset e = Some pos)"
proof (cases "padded_try U data pos")
  case None
  with assms show ?thesis by (auto simp: padded_round_def)
next
  case (Some r)
  with assms have r: "r = Goto pos' appended" by (simp add: padded_round_def)
  from padded_try_cases [OF Some] show ?thesis
  proof
    assume "r = Goto (pos + 1) None"
    with r show ?thesis by auto
  next
    assume "\<exists>padding_offset t i s. r = padded_entry U data pos padding_offset t i s"
    then obtain padding_offset t i s
      where "padded_entry U data pos padding_offset t i s = Goto pos' appended"
      using r by auto
    from padded_entry_forward [OF this] show ?thesis by blast
  qed
qed

lemma compact_entry_forward:
  assumes "compact_entry U data pos t i s = Goto pos' appended"
  shows "pos < pos'" and "\<forall>e. appended = Some e \<longrightarrow> r_offset e = Some pos"
proof -
  from assms
  have "pos' = pos + 1 \<or> (\<exists>n. pos' = compact_skip data (pos + 12 + n))"
    by (auto simp: compact_entry_def Let_def split: if_splits option.splits)
  then show "pos < pos'"
  proof
    assume "pos' = pos + 1"
    then show ?thesis by simp
  next
    assume "\<exists>n. pos' = compact_skip data (pos + 12 + n)"
    then obtain n where "pos' = compact_skip data (pos + 12 + n)" ..
    with compact_skip_forward [of "pos + 12 + n" data] show ?thesis by simp
  qed
  from assms show "\<forall>e. appended = Some e \<longrightarrow> r_offset e = Some pos"
    by (auto simp: compact_entry_def Let_def split: if_splits option.splits)
qed

lemma compact_try_cases:
  assumes "compact_try U data pos = Some r"
  shows "r = Goto (pos + 1) None \<or> (\<exists>t i s. r = compact_entry U data pos t i s)"
  using assms by (auto simp: compact_try_def bind_eq_Some_conv split: if_splits)

lemma compact_round_forward:
  assumes "compact_round U data pos = Goto pos' appended"
  shows "pos < pos' \<and> (\<forall>e. appended = Some e \<longrightarrow> r_offset e = Some pos)"
proof (cases "compact_try U data pos")
  case None
  with assms show ?thesis by (auto simp: compact_round_def)
next
  case (Some r)
  with assms have r: "r = Goto pos' appended" by (simp add: compact_round_def)
  from compact_try_cases [OF Some] show ?thesis
  proof
    assume "r = Goto (pos + 1) None"
    with r show ?thesis by auto
  next
    assume "\<exists>t i s. r = compact_entry U data pos t i s"
    then obtain t i s where "compact_entry U data pos t i s = Goto pos' appended"
      using r by auto
    from compact_entry_forward [OF this] show ?thesis by blast
  qed
qed

subsection \<open>Unfolding a scan\<close>

lemma padded_scan_step:
  "pos + 24 < length data \<Longrightarrow> padded_round U data pos = Goto pos' appended \<Longrightarrow>
   padded_scan U data pos =
     (case appended of None \<Rightarrow> [] | Some e \<Rightarrow> [e]) @ padded_scan U data pos'"
  by (subst padded_scan.simps) simp

lemma padded_scan_break:
  "padded_round U data pos = Break \<Longrightarrow> padded_scan U data pos = []"
  by (subst padded_scan.simps) simp

lemma padded_scan_end:
  "\<not> pos + 24 < length data \<Longrightarrow> padded_scan U data pos = []"
  by (subst padded_scan.simps) simp

lemma compact_scan_step:
  "pos + 12 \<le> length data \<Longrightarrow> compact_round U data pos = Goto pos' appended \<Longrightarrow>
   compact_scan U data pos =
     (case appended of None \<Rightarrow> [] | Some e \<Rightarrow> [e]) @ compact_scan U data pos'"
  by (subst compact_scan.simps) simp

lemma compact_scan_break:
  "compact_round U data pos = Break \<Longrightarrow> compact_scan U data pos = []"
  by (subst compact_scan.simps) simp

lemma compact_scan_end:
  "\<not> pos + 12 \<le> length data \<Longrightarrow> compact_scan U data pos = []"
  by (subst compact_scan.simps) simp

subsection \<open>The offsets of one strategy increase\<close>

lemma offsets_from:
  assumes "\<forall>e \<in> set es. \<exists>k. r_offset e = Some k \<and> pos' \<le> k" and "sorted_wrt offset_before es"
    and "pos < pos'" and "\<forall>e. appended = Some e \<longrightarrow> r_offset e = Some pos"
  shows "(\<forall>e \<in> set ((case appended of None \<Rightarrow> [] | Some e \<Rightarrow> [e]) @ es).
            \<exists>k. r_offset e = Some k \<and> pos \<le> k)
         \<and> sorted_wrt offset_before ((case appended of None \<Rightarrow> [] | Some e \<Rightarrow> [e]) @ es)"
proof (cases appended)
  case None
  with assms(1,2,3) show ?thesis by (simp, force)
next
  case (Some a)
  with assms(4) have a: "r_offset a = Some pos" by simp
  have "offset_before a e" if "e \<in> set es" for e
  proof -
    from assms(1) that obtain k where "r_offset e = Some k" "pos' \<le> k" by blast
    with a assms(3) show ?thesis by (simp add: offset_before_def)
  qed
  moreover have "\<exists>k. r_offset e = Some k \<and> pos \<le> k" if "e \<in> set es" for e
  proof -
    from assms(1) that obtain k where "r_offset e = Some k" "pos' \<le> k" by blast
    with assms(3) show ?thesis by simp
  qed
  ultimately show ?thesis using Some a assms(2) by simp
qed

lemma padded_scan_offsets:
  "(\<forall>e \<in> set (padded_scan U data pos). \<exists>k. r_offset e = Some k \<and> pos \<le> k)
   \<and> sorted_wrt offset_before (padded_scan U data pos)"
proof (induction U data pos rule: padded_scan.induct)
  case (1 U data pos)
  show ?case
  proof (cases "pos + 24 < length data")
    case False
    then show ?thesis by (simp add: padded_scan_end)
  next
    case True
    show ?thesis
    proof (cases "padded_round U data pos")
      case Break
      then show ?thesis by (simp add: padded_scan_break)
    next
      case (Goto pos' appended)
      from "1.IH" [OF True Goto]
      have IH: "\<forall>e \<in> set (padded_scan U data pos'). \<exists>k. r_offset e = Some k \<and> pos' \<le> k"
        "sorted_wrt offset_before (padded_scan U data pos')" by blast+
      from padded_round_forward [OF Goto]
      have f: "pos < pos'" "\<forall>e. appended = Some e \<longrightarrow> r_offset e = Some pos" by blast+
      from offsets_from [OF IH f] show ?thesis
        unfolding padded_scan_step [OF True Goto] .
    qed
  qed
qed

lemma compact_scan_offsets:
  "(\<forall>e \<in> set (compact_scan U data pos). \<exists>k. r_offset e = Some k \<and> pos \<le> k)
   \<and> sorted_wrt offset_before (compact_scan U data pos)"
proof (induction U data pos rule: compact_scan.induct)
  case (1 U data pos)
  show ?case
  proof (cases "pos + 12 \<le> length data")
    case False
    then show ?thesis by (simp add: compact_scan_end)
  next
    case True
    show ?thesis
    proof (cases "compact_round U data pos")
      case Break
      then show ?thesis by (simp add: compact_scan_break)
    next
      case (Goto pos' appended)
      from "1.IH" [OF True Goto]
      have IH: "\<forall>e \<in> set (compact_scan U data pos'). \<exists>k. r_offset e = Some k \<and> pos' \<le> k"
        "sorted_wrt offset_before (compact_scan U data pos')" by blast+
      from compact_round_forward [OF Goto]
      have f: "pos < pos'" "\<forall>e. appended = Some e \<longrightarrow> r_offset e = Some pos" by blast+
      from offsets_from [OF IH f] show ?thesis
        unfolding compact_scan_step [OF True Goto] .
    qed
  qed
qed

text \<open>
  C9. In the output of the padded strategy and in the output of the compact strategy
  every entry has an offset, and of any two entries of one list the earlier one has the
  smaller offset: the offsets increase strictly from each entry to the next. This holds
  for every buffer and every content of the Unicode tables.
\<close>

theorem extraction_offsets_increase:
  "(\<forall>e \<in> set (parse_padded_format U data). \<exists>k. r_offset e = Some k)
   \<and> sorted_wrt offset_before (parse_padded_format U data)
   \<and> (\<forall>e \<in> set (parse_compact_format U data). \<exists>k. r_offset e = Some k)
   \<and> sorted_wrt offset_before (parse_compact_format U data)"
  using padded_scan_offsets [of U data 0] compact_scan_offsets [of U data 0]
  unfolding parse_padded_format_def parse_compact_format_def by blast

lemma compact_skip_stop:
  "\<not> (pos + 16 < length data \<and> byte_at data pos = Some 0) \<Longrightarrow> compact_skip data pos = pos"
  by (subst compact_skip.simps) auto

lemma pearl_valid: "is_valid_text U [0x50, 0x65, 0x61, 0x72, 0x6C]"
  by (simp add: is_valid_text_def is_speaker_name_def SPEAKER_NAMES_def str_defs Let_def)

lemma nesso_valid: "is_valid_text U [0x4E, 0x65, 0x73, 0x73, 0x6F]"
  by (simp add: is_valid_text_def is_speaker_name_def SPEAKER_NAMES_def str_defs Let_def)

lemmas read_defs = py_slice_def unpack_I_def byte_at_def rstrip_null_def

lemma two_compact_entries_first:
  "compact_round U two_compact_entries 0 =
     Goto 17 (Some \<lparr>r_index = 1, r_type = 4, r_text = [0x50, 0x65, 0x61, 0x72, 0x6C],
                     r_size = 5, r_offset = Some 0\<rparr>)"
proof -
  have s: "compact_skip two_compact_entries 17 = 17"
    by (rule compact_skip_stop) (simp add: two_compact_entries_def byte_at_def)
  show ?thesis
    by (simp add: compact_round_def compact_try_def compact_entry_def compact_size_def
        compact_types_def read_defs Let_def s [unfolded two_compact_entries_def]
        two_compact_entries_def pearl_valid)
qed

lemma two_compact_entries_second:
  "compact_round U two_compact_entries 17 =
     Goto 34 (Some \<lparr>r_index = 2, r_type = 4, r_text = [0x4E, 0x65, 0x73, 0x73, 0x6F],
                     r_size = 5, r_offset = Some 17\<rparr>)"
proof -
  have s: "compact_skip two_compact_entries 34 = 34"
    by (rule compact_skip_stop) (simp add: two_compact_entries_def byte_at_def)
  show ?thesis
    by (simp add: compact_round_def compact_try_def compact_entry_def compact_size_def
        compact_types_def read_defs Let_def s [unfolded two_compact_entries_def]
        two_compact_entries_def nesso_valid)
qed

lemma two_compact_entries_parsed:
  "parse_compact_format U two_compact_entries =
     [\<lparr>r_index = 1, r_type = 4, r_text = [0x50, 0x65, 0x61, 0x72, 0x6C],
       r_size = 5, r_offset = Some 0\<rparr>,
      \<lparr>r_index = 2, r_type = 4, r_text = [0x4E, 0x65, 0x73, 0x73, 0x6F],
       r_size = 5, r_offset = Some 17\<rparr>]"
proof -
  have l: "length two_compact_entries = 34" by (simp add: two_compact_entries_def)
  have "compact_scan U two_compact_entries 34 = []"
    by (rule compact_scan_end) (simp add: l)
  moreover from l have "17 + 12 \<le> length two_compact_entries" by simp
  note compact_scan_step [OF this two_compact_entries_second]
  moreover from l have "0 + 12 \<le> length two_compact_entries" by simp
  note compact_scan_step [OF this two_compact_entries_first]
  ultimately show ?thesis by (simp add: parse_compact_format_def)
qed

theorem extraction_offsets_increase_witness:
  "map r_offset (parse_compact_format basic_ucd two_compact_entries) = [Some 0, Some 17]
   \<and> sorted_wrt offset_before (parse_compact_format basic_ucd two_compact_entries)"
proof -
  have "map r_offset (parse_compact_format basic_ucd two_compact_entries) = [Some 0, Some 17]"
    by (simp add: two_compact_entries_parsed)
  with extraction_offsets_increase [of basic_ucd two_compact_entries] show ?thesis
    by blast
qed


subsection \<open>Failed checks\<close>

lemma compact_round_checks:
  assumes "unpack_I (py_slice data pos (pos + 4)) = Some t"
    and "unpack_I (py_slice data (pos + 4) (pos + 8)) = Some i"
    and "unpack_I (py_slice data (pos + 8) (pos + 12)) = Some s"
  shows "t \<notin> set compact_types \<or> i > 100000 \<or> compact_size data (pos + 12) t s = None
         \<Longrightarrow> compact_round U data pos = Goto (pos + 1) None"
    and "t \<in> set compact_types \<Longrightarrow> i \<le> 100000 \<Longrightarrow>
         compact_size data (pos + 12) t s = Some n \<Longrightarrow> pos + 12 + n > length data
         \<Longrightarrow> compact_round U data pos = Break"
  using assms
  by (auto simp: compact_round_def compact_try_def compact_entry_def Let_def)

lemma padded_round_checks:
  assumes "all_null data pos 4 = Some True"
    and "(if pos + 8 \<le> length data then all_null data (pos + 4) 4 else Some False) = Some pad8"
    and "q = (if pad8 then 8 else 4)"
    and "unpack_I (py_slice data (pos + q) (pos + q + 4)) = Some t"
    and "unpack_I (py_slice data (pos + q + 4) (pos + q + 8)) = Some i"
    and "unpack_I (py_slice data (pos + q + 8) (pos + q + 12)) = Some s"
  shows "t \<notin> set padded_types \<or> i > 100000 \<or> padded_size data (pos + q + 12) t s = None
         \<Longrightarrow> padded_round U data pos = Goto (pos + 1) None"
    and "t \<in> set padded_types \<Longrightarrow> i \<le> 100000 \<Longrightarrow>
         padded_size data (pos + q + 12) t s = Some n \<Longrightarrow> pos + q + 12 + n > length data
         \<Longrightarrow> padded_round U data pos = Break"
proof -
  from assms have t: "padded_try U data pos = Some (padded_entry U data pos q t i s)"
    by (simp add: padded_try_def Let_def)
  show "t \<notin> set padded_types \<or> i > 100000 \<or> padded_size data (pos + q + 12) t s = None
         \<Longrightarrow> padded_round U data pos = Goto (pos + 1) None"
    by (auto simp: padded_round_def t padded_entry_def split: option.splits)
  show "t \<in> set padded_types \<Longrightarrow> i \<le> 100000 \<Longrightarrow>
         padded_size data (pos + q + 12) t s = Some n \<Longrightarrow> pos + q + 12 + n > length data
         \<Longrightarrow> padded_round U data pos = Break"
    by (simp add: padded_round_def t padded_entry_def Let_def)
qed

lemma padded_round_no_padding:
  "all_null data pos 4 = Some False \<Longrightarrow> padded_round U data pos = Goto (pos + 1) None"
  by (simp add: padded_round_def padded_try_def)

text \<open>
  C5, as the code has it. A candidate header of the compact strategy, or of the padded
  strategy behind four zero bytes, whose type is not in the list of types, whose index
  is above 100000 or whose size fails the size check makes the round go on one byte
  further with nothing appended. A header that passes these checks and whose string
  would end behind the end of the buffer makes the round leave the loop: the scan from
  this position yields nothing, whatever lies behind.
\<close>

theorem validation_failure_recovery:
  "(unpack_I (py_slice data pos (pos + 4)) = Some t
    \<and> unpack_I (py_slice data (pos + 4) (pos + 8)) = Some i
    \<and> unpack_I (py_slice data (pos + 8) (pos + 12)) = Some s \<longrightarrow>
      (t \<notin> set compact_types \<or> i > 100000 \<or> compact_size data (pos + 12) t s = None
         \<longrightarrow> compact_round U data pos = Goto (pos + 1) None)
      \<and> (t \<in> set compact_types \<and> i \<le> 100000
         \<and> compact_size data (pos + 12) t s = Some n \<and> pos + 12 + n > length data
         \<longrightarrow> compact_round U data pos = Break \<and> compact_scan U data pos = []))
   \<and> (all_null data pos 4 = Some False \<longrightarrow> padded_round U data pos = Goto (pos + 1) None)
   \<and> (all_null data pos 4 = Some True
      \<and> (if pos + 8 \<le> length data then all_null data (pos + 4) 4 else Some False) = Some pad8
      \<and> q = (if pad8 then 8 else 4)
      \<and> unpack_I (py_slice data (pos + q) (pos + q + 4)) = Some t'
      \<and> unpack_I (py_slice data (pos + q + 4) (pos + q + 8)) = Some i'
      \<and> unpack_I (py_slice data (pos + q + 8) (pos + q + 12)) = Some s' \<longrightarrow>
        (t' \<notin> set padded_types \<or> i' > 100000 \<or> padded_size data (pos + q + 12) t' s' = None
           \<longrightarrow> padded_round U data pos = Goto (pos + 1) None)
        \<and> (t' \<in> set padded_types \<and> i' \<le> 100000
           \<and> padded_size data (pos + q + 12) t' s' = Some n' \<and> pos + q + 12 + n' > length data
           \<longrightarrow> padded_round U data pos = Break \<and> padded_scan U data pos = []))"
proof (intro conjI impI)
  assume a: "unpack_I (py_slice data pos (pos + 4)) = Some t
    \<and> unpack_I (py_slice data (pos + 4) (pos + 8)) = Some i
    \<and> unpack_I (py_slice data (pos + 8) (pos + 12)) = Some s"
  then have r: "unpack_I (py_slice data pos (pos + 4)) = Some t"
    "unpack_I (py_slice data (pos + 4) (pos + 8)) = Some i"
    "unpack_I (py_slice data (pos + 8) (pos + 12)) = Some s" by blast+
  {
    assume "t \<notin> set compact_types \<or> i > 100000 \<or> compact_size data (pos + 12) t s = None"
    then show "compact_round U data pos = Goto (pos + 1) None"
      by (rule compact_round_checks(1) [OF r])
  }
  {
    assume b: "t \<in> set compact_types \<and> i \<le> 100000
         \<and> compact_size data (pos + 12) t s = Some n \<and> pos + 12 + n > length data"
    then show br: "compact_round U data pos = Break"
      using compact_round_checks(2) [OF r] by blast
    then show "compact_scan U data pos = []" by (rule compact_scan_break)
  }
next
  assume "all_null data pos 4 = Some False"
  then show "padded_round U data pos = Goto (pos + 1) None" by (rule padded_round_no_padding)
next
  assume a: "all_null data pos 4 = Some True
      \<and> (if pos + 8 \<le> length data then all_null data (pos + 4) 4 else Some False) = Some pad8
      \<and> q = (if pad8 then 8 else 4)
      \<and> unpack_I (py_slice data (pos + q) (pos + q + 4)) = Some t'
      \<and> unpack_I (py_slice data (pos + q + 4) (pos + q + 8)) = Some i'
      \<and> unpack_I (py_slice data (pos + q + 8) (pos + q + 12)) = Some s'"
  then have r: "all_null data pos 4 = Some True"
    "(if pos + 8 \<le> length data then all_null data (pos + 4) 4 else Some False) = Some pad8"
    "q = (if pad8 then 8 else 4)"
    "unpack_I (py_slice data (pos + q) (pos + q + 4)) = Some t'"
    "unpack_I (py_slice data (pos + q + 4) (pos + q + 8)) = Some i'"
    "unpack_I (py_slice data (pos + q + 8) (pos + q + 12)) = Some s'" by blast+
  {
    assume "t' \<notin> set padded_types \<or> i' > 100000
            \<or> padded_size data (pos + q + 12) t' s' = None"
    then show "padded_round U data pos = Goto (pos + 1) None"
      by (rule padded_round_checks(1) [OF r])
  }
  {
    assume b: "t' \<in> set padded_types \<and> i' \<le> 100000
           \<and> padded_size data (pos + q + 12) t' s' = Some n' \<and> pos + q + 12 + n' > length data"
    then show br: "padded_round U data pos = Break"
      using padded_round_checks(2) [OF r] by blast
    then show "padded_scan U data pos = []" by (rule padded_scan_break)
  }
qed

lemma compact_scan_bad_type:
  assumes "pos + 12 \<le> length data"
    and "case unpack_I (py_slice data pos (pos + 4)) of
           None \<Rightarrow> True | Some t \<Rightarrow> t \<notin> set compact_types"
  shows "compact_scan U data pos = compact_scan U data (pos + 1)"
proof -
  from assms(2) have "compact_round U data pos = Goto (pos + 1) None"
    by (auto simp: compact_round_def compact_try_def split: option.splits)
  from compact_scan_step [OF assms(1) this] show ?thesis by simp
qed

lemma overrun_then_entry_reads:
  "unpack_I (py_slice overrun_then_entry 0 (0 + 4)) = Some 4"
  "unpack_I (py_slice overrun_then_entry (0 + 4) (0 + 8)) = Some 70000"
  "unpack_I (py_slice overrun_then_entry (0 + 8) (0 + 12)) = Some 100"
  "compact_size overrun_then_entry (0 + 12) 4 100 = Some 100"
  "length overrun_then_entry = 29"
  by (simp_all add: overrun_then_entry_def read_defs compact_size_def)

lemma overrun_then_entry_at_12:
  "compact_round U overrun_then_entry 12 =
     Goto 29 (Some \<lparr>r_index = 2, r_type = 4, r_text = [0x50, 0x65, 0x61, 0x72, 0x6C],
                     r_size = 5, r_offset = Some 12\<rparr>)"
proof -
  have s: "compact_skip overrun_then_entry 29 = 29"
    by (rule compact_skip_stop) (simp add: overrun_then_entry_def byte_at_def)
  show ?thesis
    by (simp add: compact_round_def compact_try_def compact_entry_def compact_size_def
        compact_types_def read_defs Let_def s [unfolded overrun_then_entry_def]
        overrun_then_entry_def pearl_valid)
qed

lemma overrun_then_entry_from_1:
  "compact_scan U overrun_then_entry 1 =
     [\<lparr>r_index = 2, r_type = 4, r_text = [0x50, 0x65, 0x61, 0x72, 0x6C],
       r_size = 5, r_offset = Some 12\<rparr>]"
proof -
  have "compact_scan U overrun_then_entry 1 = compact_scan U overrun_then_entry 12"
    by (simp add: compact_scan_bad_type overrun_then_entry_reads(5) compact_types_def)
       (simp add: compact_scan_bad_type overrun_then_entry_def read_defs compact_types_def,
        simp add: numeral_eq_Suc)
  moreover have "12 + 12 \<le> length overrun_then_entry"
    by (simp add: overrun_then_entry_reads(5))
  note compact_scan_step [OF this overrun_then_entry_at_12]
  moreover have "compact_scan U overrun_then_entry 29 = []"
    by (rule compact_scan_end) (simp add: overrun_then_entry_reads(5))
  ultimately show ?thesis by simp
qed

theorem validation_failure_recovery_witness:
  "compact_round basic_ucd overrun_then_entry 0 = Break
   \<and> parse_compact_format basic_ucd overrun_then_entry = []
   \<and> compact_scan basic_ucd overrun_then_entry 1 =
       [\<lparr>r_index = 2, r_type = 4, r_text = [0x50, 0x65, 0x61, 0x72, 0x6C],
         r_size = 5, r_offset = Some 12\<rparr>]"
proof -
  have t: "(4::nat) \<in> set compact_types" "(70000::nat) \<le> 100000"
    "0 + 12 + 100 > length overrun_then_entry"
    by (simp_all add: compact_types_def overrun_then_entry_reads(5))
  from validation_failure_recovery
    [where data = overrun_then_entry and pos = 0 and t = 4 and i = 70000 and s = 100
       and n = 100 and U = basic_ucd, THEN conjunct1]
    overrun_then_entry_reads t
  have "compact_round basic_ucd overrun_then_entry 0 = Break
        \<and> compact_scan basic_ucd overrun_then_entry 0 = []"
    by blast
  with overrun_then_entry_from_1 [of basic_ucd] show ?thesis
    by (simp add: parse_compact_format_def)
qed


subsection \<open>Where the scans start\<close>

lemma find_code_start_min: "13 \<le> find_code_start data"
  by (auto simp: find_code_start_def Let_def)

lemma decode_utf8_string_drop:
  "decode_utf8_string data pos = decode_utf8_string (drop pos data) 0"
  by (simp add: decode_utf8_string_def)

lemma byte_at_drop: "byte_at data pos = byte_at (drop pos data) 0"
  by (auto simp: byte_at_def)

lemma legacy_scan_drop:
  "legacy_scan data pos n = legacy_scan (drop pos data) 0 n"
proof (induction "length data - pos" arbitrary: data pos n rule: less_induct)
  case less
  show ?case
  proof (cases "pos + 4 < length data")
    case False
    then have "legacy_scan data pos n = []" by (subst legacy_scan.simps) simp
    moreover from False have "\<not> 0 + 4 < length (drop pos data)" by simp
    then have "legacy_scan (drop pos data) 0 n = []"
      by (subst legacy_scan.simps) (simp only: if_False)
    ultimately show ?thesis by simp
  next
    case True
    then have g: "0 + 4 < length (drop pos data)" by simp
    have step: "legacy_scan data (pos + c) m = legacy_scan (drop pos data) (0 + c) m"
      if "0 < c" for c m
    proof -
      from that True have "length data - (pos + c) < length data - pos" by simp
      from less [OF this] have "legacy_scan data (pos + c) m =
                                legacy_scan (drop (pos + c) data) 0 m" .
      moreover from that True have "length (drop pos data) - c < length data - pos" by simp
      from less [OF this] have "legacy_scan (drop pos data) c m =
                                legacy_scan (drop c (drop pos data)) 0 m" .
      ultimately show ?thesis by (simp add: add.commute)
    qed
    have c: "0 < snd (decode_utf8_string (drop pos data) 0)"
      by (simp add: decode_utf8_string_def Let_def)
    note L = legacy_scan.simps [of data pos n]
    note R = legacy_scan.simps [of "drop pos data" 0 n]
    have one: "legacy_scan data (pos + 1) m = legacy_scan (drop pos data) (0 + 1) m" for m
      by (rule step) simp
    show ?thesis
      apply (rule trans [OF L])
      apply (rule trans [OF _ R [symmetric]])
      apply (simp only: True g if_True byte_at_drop [of data pos]
          decode_utf8_string_drop [of data pos] step [OF c] one)
      done
  qed
qed

lemma legacy_depends_on_rest:
  assumes "find_code_start data = find_code_start data'"
    and "drop (find_code_start data) data = drop (find_code_start data') data'"
  shows "parse_legacy_utf8 data = parse_legacy_utf8 data'"
proof -
  have "parse_legacy_utf8 data = legacy_scan (drop (find_code_start data) data) 0 0"
    by (simp only: parse_legacy_utf8_def legacy_scan_drop [of data])
  also have "\<dots> = legacy_scan (drop (find_code_start data') data') 0 0"
    by (simp only: assms(2))
  also have "\<dots> = parse_legacy_utf8 data'"
    by (simp only: parse_legacy_utf8_def legacy_scan_drop [of data'])
  finally show ?thesis .
qed

lemma first_entry_at_start:
  "12 \<le> length data \<Longrightarrow> compact_round U data 0 = Goto p (Some e) \<Longrightarrow>
   r_offset e = Some 0 \<and> parse_compact_format U data = e # compact_scan U data p"
  "24 < length data \<Longrightarrow> padded_round U data 0 = Goto p' (Some e') \<Longrightarrow>
   r_offset e' = Some 0 \<and> parse_padded_format U data = e' # padded_scan U data p'"
proof -
  assume a: "12 \<le> length data" "compact_round U data 0 = Goto p (Some e)"
  from compact_round_forward [OF a(2)] have "r_offset e = Some 0" by simp
  moreover from a(1) have "0 + 12 \<le> length data" by simp
  from compact_scan_step [OF this a(2)]
  have "parse_compact_format U data = e # compact_scan U data p"
    by (simp add: parse_compact_format_def)
  ultimately show "r_offset e = Some 0 \<and> parse_compact_format U data = e # compact_scan U data p"
    ..
next
  assume a: "24 < length data" "padded_round U data 0 = Goto p' (Some e')"
  from padded_round_forward [OF a(2)] have "r_offset e' = Some 0" by simp
  moreover from a(1) have "0 + 24 < length data" by simp
  from padded_scan_step [OF this a(2)]
  have "parse_padded_format U data = e' # padded_scan U data p'"
    by (simp add: parse_padded_format_def)
  ultimately show "r_offset e' = Some 0 \<and> parse_padded_format U data = e' # padded_scan U data p'"
    ..
qed

lemma legacy_scan_text:
  assumes "pos + 4 < length data" and "byte_at data pos = Some b" and "b \<noteq> 0" and "b \<noteq> 0xFF"
    and "decode_utf8_string data pos = (text, c)" and "2 \<le> length text"
  shows "legacy_scan data pos n =
           \<lparr>r_index = int n, r_type = (if is_speaker_name text then 0x02 else 0x04),
            r_text = text, r_size = utf8_length text, r_offset = None\<rparr>
           # legacy_scan data (pos + c) (n + 1)"
  using assms by (subst legacy_scan.simps) simp

lemma legacy_scan_end:
  "\<not> pos + 4 < length data \<Longrightarrow> legacy_scan data pos n = []"
  by (subst legacy_scan.simps) simp

lemma hello_marker_world_start:
  "find_code_start hello_marker_world = 18" "find_code_start jello_marker_world = 18"
  by (simp_all add: find_code_start_def find_bytes_def GLOBAL_DATA_def CODE_START_def
      hello_marker_world_def jello_marker_world_def Let_def)

lemma no_speaker_names:
  "\<not> is_speaker_name [0x48, 0x65, 0x6C, 0x6C, 0x6F]"
  "\<not> is_speaker_name [0x43, 0x4F, 0x44, 0x45, 0x5F, 0x53, 0x54, 0x41, 0x52, 0x54, 0x5F]"
  "\<not> is_speaker_name [0x57, 0x6F, 0x72, 0x6C, 0x64]"
  by (simp_all add: is_speaker_name_def SPEAKER_NAMES_def str_defs)

lemma hello_marker_world_from_18:
  "legacy_scan hello_marker_world 18 n =
     [\<lparr>r_index = int n, r_type = 0x04, r_text = [0x57, 0x6F, 0x72, 0x6C, 0x64], r_size = 5,
       r_offset = None\<rparr>]"
proof -
  have l: "length hello_marker_world = 28" by (simp add: hello_marker_world_def)
  have d: "decode_utf8_string hello_marker_world 18 = ([0x57, 0x6F, 0x72, 0x6C, 0x64], 6)"
    by (simp add: decode_utf8_string_def hello_marker_world_def Let_def)
  have b: "byte_at hello_marker_world 18 = Some 0x57"
    by (simp add: byte_at_def hello_marker_world_def)
  have "legacy_scan hello_marker_world (18 + 6) (n + 1) = []"
    by (rule legacy_scan_end) (simp add: l)
  with legacy_scan_text [OF _ b _ _ d, of n] show ?thesis
    by (simp add: l no_speaker_names utf8_length_def)
qed

lemma hello_marker_world_from_0:
  "legacy_scan hello_marker_world 0 0 =
     [\<lparr>r_index = 0, r_type = 0x04, r_text = [0x48, 0x65, 0x6C, 0x6C, 0x6F], r_size = 5,
       r_offset = None\<rparr>,
      \<lparr>r_index = 1, r_type = 0x04,
       r_text = [0x43, 0x4F, 0x44, 0x45, 0x5F, 0x53, 0x54, 0x41, 0x52, 0x54, 0x5F],
       r_size = 11, r_offset = None\<rparr>,
      \<lparr>r_index = 2, r_type = 0x04, r_text = [0x57, 0x6F, 0x72, 0x6C, 0x64], r_size = 5,
       r_offset = None\<rparr>]"
proof -
  have l: "length hello_marker_world = 28" by (simp add: hello_marker_world_def)
  have d0: "decode_utf8_string hello_marker_world 0 = ([0x48, 0x65, 0x6C, 0x6C, 0x6F], 6)"
    by (simp add: decode_utf8_string_def hello_marker_world_def Let_def)
  have b0: "byte_at hello_marker_world 0 = Some 0x48"
    by (simp add: byte_at_def hello_marker_world_def)
  have d6: "decode_utf8_string hello_marker_world 6 =
              ([0x43, 0x4F, 0x44, 0x45, 0x5F, 0x53, 0x54, 0x41, 0x52, 0x54, 0x5F], 12)"
    by (simp add: decode_utf8_string_def hello_marker_world_def Let_def)
  have b6: "byte_at hello_marker_world 6 = Some 0x43"
    by (simp add: byte_at_def hello_marker_world_def)
  have "legacy_scan hello_marker_world 6 n =
          [\<lparr>r_index = int n, r_type = 0x04,
            r_text = [0x43, 0x4F, 0x44, 0x45, 0x5F, 0x53, 0x54, 0x41, 0x52, 0x54, 0x5F],
            r_size = 11, r_offset = None\<rparr>,
           \<lparr>r_index = int n + 1, r_type = 0x04, r_text = [0x57, 0x6F, 0x72, 0x6C, 0x64],
            r_size = 5, r_offset = None\<rparr>]" for n
    using legacy_scan_text [OF _ b6 _ _ d6, of n]
    by (simp add: l no_speaker_names utf8_length_def hello_marker_world_from_18)
  with legacy_scan_text [OF _ b0 _ _ d0, of 0]
  show ?thesis by (simp add: l no_speaker_names utf8_length_def)
qed

lemma padded_skip_stop:
  "\<not> pos + 24 < length data \<Longrightarrow> padded_skip data pos = pos"
  by (subst padded_skip.simps) simp

lemma all_null_numeral:
  "all_null data pos (numeral k) =
     (case byte_at data pos of
        None \<Rightarrow> None
      | Some b \<Rightarrow> if b \<noteq> 0 then Some False else all_null data (Suc pos) (pred_numeral k))"
  by (simp add: numeral_eq_Suc)

lemma padded_pearl_first:
  "padded_round U padded_pearl 0 =
     Goto 21 (Some \<lparr>r_index = 1, r_type = 4, r_text = [0x50, 0x65, 0x61, 0x72, 0x6C],
                     r_size = 5, r_offset = Some 0\<rparr>)"
proof -
  have s: "padded_skip padded_pearl 21 = 21"
    by (rule padded_skip_stop) (simp add: padded_pearl_def)
  have n: "all_null padded_pearl 0 4 = Some True" "all_null padded_pearl 4 4 = Some False"
    by (simp_all add: padded_pearl_def byte_at_def all_null_numeral)
  show ?thesis
    by (simp add: padded_round_def padded_try_def padded_entry_def padded_size_def
        padded_types_def Let_def read_defs padded_pearl_def pearl_valid
        n [unfolded padded_pearl_def] s [unfolded padded_pearl_def])
qed

text \<open>
  C6 does not hold for the legacy strategy: its scan starts at the offset that
  \<open>_find_code_start\<close> gives. In the buffer below the marker \<open>CODE_START_\<close> stands at offset
  6, so the scan starts at offset 18 and finds \<open>World\<close> only; a scan from the start of the
  buffer finds \<open>Hello\<close> before the marker as well.
\<close>

theorem legacy_scan_starts_at_code_start:
  "find_code_start hello_marker_world = 18
   \<and> map r_text (parse_legacy_utf8 hello_marker_world) = [[0x57, 0x6F, 0x72, 0x6C, 0x64]]
   \<and> map r_text (legacy_scan hello_marker_world 0 0) =
       [[0x48, 0x65, 0x6C, 0x6C, 0x6F],
        [0x43, 0x4F, 0x44, 0x45, 0x5F, 0x53, 0x54, 0x41, 0x52, 0x54, 0x5F],
        [0x57, 0x6F, 0x72, 0x6C, 0x64]]"
  by (simp add: parse_legacy_utf8_def hello_marker_world_start hello_marker_world_from_18
      hello_marker_world_from_0)

text \<open>
  C6, as the code has it. The padded and the compact strategy scan from the start of the
  buffer: an entry that the first round finds at offset 0 is the first entry of the
  result. The legacy strategy scans from the code start, which lies at offset 13 or
  behind: its result is the result of the scan of the bytes from the code start on, and
  two buffers with the same code start and the same bytes from there on give the same
  result, whatever stands before.
\<close>

theorem scan_start_positions:
  "(12 \<le> length data \<and> compact_round U data 0 = Goto p (Some e) \<longrightarrow>
      r_offset e = Some 0 \<and> parse_compact_format U data = e # compact_scan U data p)
   \<and> (24 < length data \<and> padded_round U data 0 = Goto p' (Some e') \<longrightarrow>
      r_offset e' = Some 0 \<and> parse_padded_format U data = e' # padded_scan U data p')
   \<and> parse_legacy_utf8 data = legacy_scan (drop (find_code_start data) data) 0 0
   \<and> 13 \<le> find_code_start data
   \<and> (find_code_start data = find_code_start data'
      \<and> drop (find_code_start data) data = drop (find_code_start data') data'
      \<longrightarrow> parse_legacy_utf8 data = parse_legacy_utf8 data')"
proof -
  have "parse_legacy_utf8 data = legacy_scan (drop (find_code_start data) data) 0 0"
    unfolding parse_legacy_utf8_def by (rule legacy_scan_drop)
  with first_entry_at_start [of data U] legacy_depends_on_rest [of data data']
    find_code_start_min [of data]
  show ?thesis by blast
qed

theorem scan_start_positions_witness:
  "parse_compact_format basic_ucd two_compact_entries =
     \<lparr>r_index = 1, r_type = 4, r_text = [0x50, 0x65, 0x61, 0x72, 0x6C], r_size = 5,
      r_offset = Some 0\<rparr> # compact_scan basic_ucd two_compact_entries 17
   \<and> parse_padded_format basic_ucd padded_pearl =
     \<lparr>r_index = 1, r_type = 4, r_text = [0x50, 0x65, 0x61, 0x72, 0x6C], r_size = 5,
      r_offset = Some 0\<rparr> # padded_scan basic_ucd padded_pearl 21
   \<and> hello_marker_world \<noteq> jello_marker_world
   \<and> parse_legacy_utf8 hello_marker_world = parse_legacy_utf8 jello_marker_world"
proof -
  have c: "12 \<le> length two_compact_entries" by (simp add: two_compact_entries_def)
  from scan_start_positions
    [where data = two_compact_entries and U = basic_ucd and p = 17
       and e = "\<lparr>r_index = 1, r_type = 4, r_text = [0x50, 0x65, 0x61, 0x72, 0x6C], r_size = 5,
                r_offset = Some 0\<rparr>", THEN conjunct1]
    c two_compact_entries_first [of basic_ucd]
  have 1: "parse_compact_format basic_ucd two_compact_entries =
     \<lparr>r_index = 1, r_type = 4, r_text = [0x50, 0x65, 0x61, 0x72, 0x6C], r_size = 5,
      r_offset = Some 0\<rparr> # compact_scan basic_ucd two_compact_entries 17"
    by blast
  have p: "24 < length padded_pearl" by (simp add: padded_pearl_def)
  from scan_start_positions
    [where data = padded_pearl and U = basic_ucd and p' = 21
       and e' = "\<lparr>r_index = 1, r_type = 4, r_text = [0x50, 0x65, 0x61, 0x72, 0x6C], r_size = 5,
                 r_offset = Some 0\<rparr>", THEN conjunct2, THEN conjunct1]
    p padded_pearl_first [of basic_ucd]
  have 2: "parse_padded_format basic_ucd padded_pearl =
     \<lparr>r_index = 1, r_type = 4, r_text = [0x50, 0x65, 0x61, 0x72, 0x6C], r_size = 5,
      r_offset = Some 0\<rparr> # padded_scan basic_ucd padded_pearl 21"
    by blast
  have 3: "hello_marker_world \<noteq> jello_marker_world"
    by (simp add: hello_marker_world_def jello_marker_world_def)
  have "drop (find_code_start hello_marker_world) hello_marker_world =
        drop (find_code_start jello_marker_world) jello_marker_world"
    by (simp add: hello_marker_world_start) (simp add: hello_marker_world_def jello_marker_world_def)
  with scan_start_positions
    [where data = hello_marker_world and data' = jello_marker_world,
      THEN conjunct2, THEN conjunct2, THEN conjunct2, THEN conjunct2]
    hello_marker_world_start
  have 4: "parse_legacy_utf8 hello_marker_world = parse_legacy_utf8 jello_marker_world"
    by simp
  from 1 2 3 4 show ?thesis by (intro conjI)
qed

end
